theory Spec2Isabelle
  imports Complex_Main "HOL-Library.AList" "HOL-Library.Char_ord" "HOL-Library.List_Lexorder"
begin

section \<open>JavaScript values\<close>

text \<open>
  The resolver of \<^verbatim>\<open>src/eggs-next-setup/index.ts\<close> works on whatever document the
  registry sends back (\<^verbatim>\<open>response.data\<close> has type \<^verbatim>\<open>any\<close>), so the values are the
  dynamically typed ones of JavaScript. A string is a list of code units, each a
  \<^typ>\<open>char\<close> (code units below 256), ordered by code as \<^verbatim>\<open>Array.prototype.sort\<close>
  orders them. An object is the list of its own enumerable properties in enumeration
  order; where a key is listed twice the first binding is the property. Numbers matter
  to the program only through \<^verbatim>\<open>typeof\<close> and truthiness.
\<close>

datatype jsval =
    JUndefined
  | JNull
  | JBool bool
  | JNum rat
  | JStr string
  | JArr "jsval list"
  | JObj "(string \<times> jsval) list"

datatype error = AxiosError | TypeError

fun typeof :: "jsval \<Rightarrow> string" where
  "typeof JUndefined = ''undefined''"
| "typeof JNull = ''object''"
| "typeof (JBool b) = ''boolean''"
| "typeof (JNum r) = ''number''"
| "typeof (JStr s) = ''string''"
| "typeof (JArr xs) = ''object''"
| "typeof (JObj kvs) = ''object''"

fun truthy :: "jsval \<Rightarrow> bool" where
  "truthy JUndefined = False"
| "truthy JNull = False"
| "truthy (JBool b) = b"
| "truthy (JNum r) = (r \<noteq> 0)"
| "truthy (JStr s) = (s \<noteq> [])"
| "truthy (JArr xs) = True"
| "truthy (JObj kvs) = True"

text \<open>\<^verbatim>\<open>a || b\<close>\<close>

definition js_or :: "jsval \<Rightarrow> jsval \<Rightarrow> jsval" where
  "js_or a b = (if truthy a then a else b)"

text \<open>The decimal name of an array index, as property keys spell it.\<close>

fun index_key :: "nat \<Rightarrow> string" where
  "index_key n =
     (if n < 10 then [char_of (48 + n)]
      else index_key (n div 10) @ [char_of (48 + n mod 10)])"

declare index_key.simps [simp del]

text \<open>
  The own enumerable string-keyed properties of a value after \<^verbatim>\<open>ToObject\<close>: those of
  an object, the elements of an array under their indices, the code units of a string
  under their indices, none for a number or a boolean.
\<close>

fun own_entries :: "jsval \<Rightarrow> (string \<times> jsval) list" where
  "own_entries (JObj kvs) = AList.clearjunk kvs"
| "own_entries (JArr xs) = zip (map index_key [0..<length xs]) xs"
| "own_entries (JStr s) = zip (map index_key [0..<length s]) (map (\<lambda>c. JStr [c]) s)"
| "own_entries JUndefined = []"
| "own_entries JNull = []"
| "own_entries (JBool b) = []"
| "own_entries (JNum r) = []"

text \<open>\<^verbatim>\<open>Object.entries\<close> and \<^verbatim>\<open>Object.keys\<close> throw a TypeError on \<^verbatim>\<open>undefined\<close> and \<^verbatim>\<open>null\<close>.\<close>

definition Object_entries :: "jsval \<Rightarrow> error + (string \<times> jsval) list" where
  "Object_entries v =
     (if v = JUndefined \<or> v = JNull then Inl TypeError else Inr (own_entries v))"

definition Object_keys :: "jsval \<Rightarrow> error + string list" where
  "Object_keys v =
     (if v = JUndefined \<or> v = JNull then Inl TypeError else Inr (map fst (own_entries v)))"

text \<open>
  Property read \<^verbatim>\<open>v[k]\<close> (also \<^verbatim>\<open>v.k\<close>): a TypeError on \<^verbatim>\<open>undefined\<close> and \<^verbatim>\<open>null\<close>,
  the own property where there is one, \<^verbatim>\<open>undefined\<close> otherwise. The program reads the
  names \<^verbatim>\<open>versions\<close>, \<^verbatim>\<open>peerDependencies\<close> and \<^verbatim>\<open>@angular/core\<close>, which no prototype
  defines, and own keys that \<^verbatim>\<open>Object.keys\<close> listed; inherited properties are not modelled.
\<close>

definition js_get :: "jsval \<Rightarrow> string \<Rightarrow> error + jsval" where
  "js_get v k =
     (if v = JUndefined \<or> v = JNull then Inl TypeError
      else case map_of (own_entries v) k of
             None \<Rightarrow> Inr JUndefined
           | Some x \<Rightarrow> Inr x)"

text \<open>\<^verbatim>\<open>Array.prototype.filter\<close> with a callback that may throw: the first throw ends it.\<close>

fun filter_err :: "('a \<Rightarrow> error + bool) \<Rightarrow> 'a list \<Rightarrow> error + 'a list" where
  "filter_err p [] = Inr []"
| "filter_err p (x # xs) =
     (case p x of
        Inl e \<Rightarrow> Inl e
      | Inr b \<Rightarrow>
          (case filter_err p xs of
             Inl e \<Rightarrow> Inl e
           | Inr ys \<Rightarrow> Inr (if b then x # ys else ys)))"

text \<open>\<^verbatim>\<open>Array.prototype.join\<close> on strings.\<close>

fun join :: "string \<Rightarrow> string list \<Rightarrow> string" where
  "join sep [] = []"
| "join sep [x] = x"
| "join sep (x # y # ys) = x @ sep @ join sep (y # ys)"

section \<open>The registry and the console\<close>

text \<open>
  The effects of the resolver are its HTTP requests and its console warnings. The world
  records both in order. The registry is the environment: what the \<open>k\<close>-th request of
  the run, to a given URL, is answered with; \<open>Failed\<close> is a request that axios rejects.
\<close>

datatype reply = Failed | Reply jsval

type_synonym registry = "nat \<Rightarrow> string \<Rightarrow> reply"

record world =
  requests :: "string list"
  console :: "string list"

definition axios_get :: "registry \<Rightarrow> string \<Rightarrow> world \<Rightarrow> (error + jsval) \<times> world" where
  "axios_get reg url w =
     ((case reg (length (requests w)) url of
         Failed \<Rightarrow> Inl AxiosError
       | Reply d \<Rightarrow> Inr d),
      w\<lparr>requests := requests w @ [url]\<rparr>)"

definition console_warn :: "string \<Rightarrow> world \<Rightarrow> world" where
  "console_warn msg w = w\<lparr>console := console w @ [msg]\<rparr>"

definition registry_url :: string where
  "registry_url = ''https://registry.npmjs.org/''"

section \<open>The resolver\<close>

record dependency =
  name :: string
  version :: string

definition dependenciesToCheck :: "dependency list" where
  "dependenciesToCheck =
     [\<lparr>name = ''rxjs'', version = ''latest''\<rparr>,
      \<lparr>name = ''primeng'', version = ''latest''\<rparr>,
      \<lparr>name = ''primeflex'', version = ''latest''\<rparr>,
      \<lparr>name = ''keycloak-js'', version = ''latest''\<rparr>,
      \<lparr>name = ''keycloak-angular'', version = ''latest''\<rparr>]"

subsection \<open>getPeerDependencies\<close>

text \<open>The body of the \<^verbatim>\<open>try\<close> once the response is there (lines 79-80).\<close>

definition getPeerDependencies_try :: "jsval \<Rightarrow> error + jsval" where
  "getPeerDependencies_try data =
     (if typeof data = ''object'' then
        (case js_get data ''peerDependencies'' of
           Inl e \<Rightarrow> Inl e
         | Inr pd \<Rightarrow> Inr (js_or pd (JObj [])))
      else Inr (JObj []))"

definition getPeerDependencies ::
  "registry \<Rightarrow> string \<Rightarrow> string \<Rightarrow> world \<Rightarrow> jsval \<times> world" where
  "getPeerDependencies reg packageName ver w =
     (case axios_get reg (registry_url @ packageName @ ''/'' @ ver) w of
        (r, w1) \<Rightarrow>
          (case (case r of Inl e \<Rightarrow> Inl e | Inr data \<Rightarrow> getPeerDependencies_try data) of
             Inr peerDeps \<Rightarrow> (peerDeps, w1)
           | Inl e \<Rightarrow>
               (JObj [],
                console_warn
                  (''Could not fetch peer dependencies for '' @ packageName @ ''@'' @ ver) w1)))"

subsection \<open>getCompatibleVersion\<close>

text \<open>The callback of the filter (line 94).\<close>

definition compatible :: "jsval \<Rightarrow> string \<Rightarrow> string \<Rightarrow> error + bool" where
  "compatible versions angularVersion v =
     (case js_get versions v of
        Inl e \<Rightarrow> Inl e
      | Inr entry \<Rightarrow>
          (case js_get entry ''peerDependencies'' of
             Inl e \<Rightarrow> Inl e
           | Inr pd \<Rightarrow>
               (case js_get (js_or pd (JObj [])) ''@angular/core'' of
                  Inl e \<Rightarrow> Inl e
                | Inr core \<Rightarrow> Inr (core = JStr angularVersion))))"

text \<open>
  The body of the \<^verbatim>\<open>try\<close> once the response is there (lines 90-98). The first element
  of the sorted array is \<^verbatim>\<open>undefined\<close> when the array is empty, and \<^verbatim>\<open>||\<close> replaces both
  \<^verbatim>\<open>undefined\<close> and the empty string by \<^verbatim>\<open>'latest'\<close>.
\<close>

definition getCompatibleVersion_try :: "jsval \<Rightarrow> string \<Rightarrow> error + string" where
  "getCompatibleVersion_try data angularVersion =
     (if typeof data = ''object'' \<and> data \<noteq> JNull then
        (case js_get data ''versions'' of
           Inl e \<Rightarrow> Inl e
         | Inr versions \<Rightarrow>
             (case Object_keys versions of
                Inl e \<Rightarrow> Inl e
              | Inr ks \<Rightarrow>
                  (case filter_err (compatible versions angularVersion) ks of
                     Inl e \<Rightarrow> Inl e
                   | Inr qs \<Rightarrow>
                       (case sort qs of
                          [] \<Rightarrow> Inr ''latest''
                        | compatibleVersion # rest \<Rightarrow>
                            Inr (if compatibleVersion \<noteq> [] then compatibleVersion
                                 else ''latest'')))))
      else Inr ''latest'')"

definition getCompatibleVersion ::
  "registry \<Rightarrow> string \<Rightarrow> string \<Rightarrow> world \<Rightarrow> string \<times> world" where
  "getCompatibleVersion reg packageName angularVersion w =
     (case axios_get reg (registry_url @ packageName) w of
        (r, w1) \<Rightarrow>
          (case (case r of
                   Inl e \<Rightarrow> Inl e
                 | Inr data \<Rightarrow> getCompatibleVersion_try data angularVersion) of
             Inr v \<Rightarrow> (v, w1)
           | Inl e \<Rightarrow>
               (''latest'',
                console_warn
                  (''Could not fetch version for '' @ packageName @ '', using ''
                     @ [CHR 0x27] @ ''latest'' @ [CHR 0x27]) w1)))"

subsection \<open>resolveDependencies\<close>

text \<open>
  \<^verbatim>\<open>Map<string, Set<string>>\<close>: the keys in insertion order, each with the elements of
  its set in insertion order. \<^verbatim>\<open>Map.set\<close> replaces in place or appends, which is
  \<^const>\<open>AList.update\<close>; \<^verbatim>\<open>Set.add\<close> appends an element that is not there yet.
\<close>

type_synonym conflict_map = "(string \<times> string list) list"

definition set_add :: "string list \<Rightarrow> string \<Rightarrow> string list" where
  "set_add vs v = (if v \<in> set vs then vs else vs @ [v])"

text \<open>
  The callback of \<^verbatim>\<open>Object.entries(peerDeps).forEach\<close> (lines 115-122);
  \<^verbatim>\<open>typeof depVersion === "string"\<close> holds exactly for a \<^const>\<open>JStr\<close>.
\<close>

definition record_peerDep :: "conflict_map \<Rightarrow> string \<times> jsval \<Rightarrow> conflict_map" where
  "record_peerDep m e =
     (case e of
        (depName, depVersion) \<Rightarrow>
          (let m1 = (if map_of m depName = None then AList.update depName [] m else m)
           in case depVersion of
                JStr s \<Rightarrow>
                  (case map_of m1 depName of
                     None \<Rightarrow> m1
                   | Some vs \<Rightarrow> AList.update depName (set_add vs s) m1)
              | _ \<Rightarrow> m1))"

record loop_state =
  resolvedPackages :: "string list"
  compatibilityMap :: conflict_map
  world :: world

text \<open>One round of the \<^verbatim>\<open>for\<close> loop (lines 110-122).\<close>

definition loop_body ::
  "registry \<Rightarrow> string \<Rightarrow> dependency \<Rightarrow> loop_state \<Rightarrow> error + loop_state" where
  "loop_body reg angularVersion pkg st =
     (case getCompatibleVersion reg (name pkg) angularVersion (world st) of
        (ver, w1) \<Rightarrow>
          (case getPeerDependencies reg (name pkg) ver w1 of
             (peerDeps, w2) \<Rightarrow>
               (case Object_entries peerDeps of
                  Inl e \<Rightarrow> Inl e
                | Inr es \<Rightarrow>
                    Inr \<lparr>resolvedPackages = resolvedPackages st @ [name pkg @ ''@'' @ ver],
                         compatibilityMap = foldl record_peerDep (compatibilityMap st) es,
                         world = w2\<rparr>)))"

fun resolve_loop ::
  "registry \<Rightarrow> string \<Rightarrow> dependency list \<Rightarrow> loop_state \<Rightarrow> error + loop_state" where
  "resolve_loop reg angularVersion [] st = Inr st"
| "resolve_loop reg angularVersion (pkg # pkgs) st =
     (case loop_body reg angularVersion pkg st of
        Inl e \<Rightarrow> Inl e
      | Inr st' \<Rightarrow> resolve_loop reg angularVersion pkgs st')"

text \<open>The callback of \<^verbatim>\<open>compatibilityMap.forEach\<close> (lines 126-131).\<close>

definition report_conflict :: "bool \<times> world \<Rightarrow> string \<times> string list \<Rightarrow> bool \<times> world" where
  "report_conflict acc e =
     (case acc of
        (forceInstall, w) \<Rightarrow>
          (case e of
             (depName, versions) \<Rightarrow>
               if length versions > 1 then
                 (True,
                  console_warn
                    (''Detected conflicting versions for '' @ depName @ '': ''
                       @ join '', '' versions) w)
               else (forceInstall, w)))"

record resolution =
  packages :: "string list"
  forceInstall :: bool

text \<open>
  \<^verbatim>\<open>resolveDependencies\<close> over a list of requests; the program runs it on
  \<^const>\<open>dependenciesToCheck\<close>.
\<close>

definition resolveDependencies_over ::
  "dependency list \<Rightarrow> registry \<Rightarrow> string \<Rightarrow> world \<Rightarrow> error + resolution \<times> world" where
  "resolveDependencies_over deps reg angularVersion w =
     (case resolve_loop reg angularVersion deps
             \<lparr>resolvedPackages = [''@schematics/angular@'' @ angularVersion],
              compatibilityMap = [],
              world = w\<rparr> of
        Inl e \<Rightarrow> Inl e
      | Inr st \<Rightarrow>
          (case foldl report_conflict (False, world st) (compatibilityMap st) of
             (f, w') \<Rightarrow> Inr (\<lparr>packages = resolvedPackages st, forceInstall = f\<rparr>, w')))"

definition resolveDependencies ::
  "registry \<Rightarrow> string \<Rightarrow> world \<Rightarrow> error + resolution \<times> world" where
  "resolveDependencies = resolveDependencies_over dependenciesToCheck"

section \<open>Notions for stating the properties\<close>

text \<open>
  What the loop obtains for each request, in request order: the version that
  \<^const>\<open>getCompatibleVersion\<close> returns and the peer dependencies that
  \<^const>\<open>getPeerDependencies\<close> returns for it, the world threaded as the loop threads it.
\<close>

fun resolutions ::
  "registry \<Rightarrow> string \<Rightarrow> dependency list \<Rightarrow> world \<Rightarrow> (string \<times> jsval) list" where
  "resolutions reg angularVersion [] w = []"
| "resolutions reg angularVersion (pkg # pkgs) w =
     (case getCompatibleVersion reg (name pkg) angularVersion w of
        (ver, w1) \<Rightarrow>
          (case getPeerDependencies reg (name pkg) ver w1 of
             (peerDeps, w2) \<Rightarrow> (ver, peerDeps) # resolutions reg angularVersion pkgs w2))"

text \<open>The version specs recorded under a name; none when the name is not a key.\<close>

definition versions_of :: "conflict_map \<Rightarrow> string \<Rightarrow> string set" where
  "versions_of m d = (case map_of m d of None \<Rightarrow> {} | Some vs \<Rightarrow> set vs)"

text \<open>The lists stand for a \<^verbatim>\<open>Map\<close> and for \<^verbatim>\<open>Set\<close>s: no key and no element twice.\<close>

definition wf_map :: "conflict_map \<Rightarrow> bool" where
  "wf_map m = (distinct (map fst m) \<and> (\<forall>e \<in> set m. distinct (snd e)))"

text \<open>
  A registry given by its replies to the first requests of a run, in order; every later
  request fails.
\<close>

definition scripted :: "reply list \<Rightarrow> registry" where
  "scripted replies k url = (if k < length replies then replies ! k else Failed)"

section \<open>The conflict map\<close>

lemma wf_map_Nil: "wf_map []"
  by (simp add: wf_map_def)

lemma distinct_set_add: "distinct vs \<Longrightarrow> distinct (set_add vs v)"
  by (simp add: set_add_def)

lemma set_set_add: "set (set_add vs v) = insert v (set vs)"
  by (auto simp: set_add_def)

lemma set_update_subset: "set (AList.update k v m) \<subseteq> insert (k, v) (set m)"
  by (induction m) auto

lemma wf_map_update:
  assumes "wf_map m" and "distinct v"
  shows "wf_map (AList.update k v m)"
proof -
  have "distinct (map fst (AList.update k v m))"
    using assms(1) by (simp add: wf_map_def distinct_update)
  moreover have "distinct (snd e)" if "e \<in> set (AList.update k v m)" for e
  proof -
    from that set_update_subset [of k v m] have "e = (k, v) \<or> e \<in> set m"
      by blast
    with assms show ?thesis
      unfolding wf_map_def by auto
  qed
  ultimately show ?thesis
    unfolding wf_map_def by blast
qed

lemma wf_map_values:
  assumes "wf_map m" and "map_of m d = Some vs"
  shows "distinct vs"
proof -
  from assms(2) have "(d, vs) \<in> set m" by (rule map_of_SomeD)
  with assms(1) have "distinct (snd (d, vs))"
    unfolding wf_map_def by blast
  then show ?thesis by simp
qed

lemma wf_map_record_peerDep:
  assumes "wf_map m"
  shows "wf_map (record_peerDep m e)"
proof -
  obtain d v where e: "e = (d, v)" by (cases e)
  define m1 where "m1 = (if map_of m d = None then AList.update d [] m else m)"
  have wf1: "wf_map m1"
    unfolding m1_def using assms by (simp add: wf_map_update)
  have "wf_map (case map_of m1 d of None \<Rightarrow> m1
                | Some vs \<Rightarrow> AList.update d (set_add vs s) m1)" for s
  proof (cases "map_of m1 d")
    case None
    with wf1 show ?thesis by simp
  next
    case (Some vs)
    from wf1 Some have "distinct vs" by (rule wf_map_values)
    then have "distinct (set_add vs s)" by (rule distinct_set_add)
    with wf1 Some show ?thesis by (simp add: wf_map_update)
  qed
  with wf1 show ?thesis
    unfolding e record_peerDep_def Let_def prod.case m1_def [symmetric]
    by (cases v) simp_all
qed

lemma wf_map_foldl: "wf_map m \<Longrightarrow> wf_map (foldl record_peerDep m es)"
  by (induction es arbitrary: m) (simp_all add: wf_map_record_peerDep)

lemma two_distinct_elements:
  assumes d: "distinct vs"
  shows "(length vs > 1) = (\<exists>s t. s \<noteq> t \<and> s \<in> set vs \<and> t \<in> set vs)"
proof
  assume l: "length vs > 1"
  from l obtain a vs' where "vs = a # vs'" by (cases vs) auto
  moreover with l obtain b rest where "vs' = b # rest" by (cases vs') auto
  ultimately have vs: "vs = a # b # rest" by simp
  with d have "a \<noteq> b \<and> a \<in> set vs \<and> b \<in> set vs"
    by simp
  then show "\<exists>s t. s \<noteq> t \<and> s \<in> set vs \<and> t \<in> set vs"
    by blast
next
  assume "\<exists>s t. s \<noteq> t \<and> s \<in> set vs \<and> t \<in> set vs"
  then obtain s t where st: "s \<noteq> t" "s \<in> set vs" "t \<in> set vs" by blast
  have "card {s, t} \<le> card (set vs)"
    by (rule card_mono) (simp_all add: st)
  also have "\<dots> \<le> length vs" by (rule card_length)
  finally show "length vs > 1" using st(1) by simp
qed

lemma conflict_iff_versions_of:
  assumes "wf_map m"
  shows "(\<exists>e \<in> set m. length (snd e) > 1) =
         (\<exists>d s t. s \<noteq> t \<and> s \<in> versions_of m d \<and> t \<in> versions_of m d)"
proof
  assume "\<exists>e \<in> set m. length (snd e) > 1"
  then obtain d vs where in_m: "(d, vs) \<in> set m" and l: "length vs > 1" by auto
  from assms in_m have look: "map_of m d = Some vs" by (simp add: wf_map_def)
  from assms look have "distinct vs" by (rule wf_map_values)
  with l obtain s t where "s \<noteq> t" "s \<in> set vs" "t \<in> set vs"
    using two_distinct_elements [of vs] by blast
  with look have "s \<noteq> t \<and> s \<in> versions_of m d \<and> t \<in> versions_of m d"
    by (simp add: versions_of_def)
  then show "\<exists>d s t. s \<noteq> t \<and> s \<in> versions_of m d \<and> t \<in> versions_of m d"
    by blast
next
  assume "\<exists>d s t. s \<noteq> t \<and> s \<in> versions_of m d \<and> t \<in> versions_of m d"
  then obtain d s t where st: "s \<noteq> t" "s \<in> versions_of m d" "t \<in> versions_of m d" by blast
  then obtain vs where look: "map_of m d = Some vs" and in_vs: "s \<in> set vs" "t \<in> set vs"
    unfolding versions_of_def by (cases "map_of m d") auto
  from assms look have "distinct vs" by (rule wf_map_values)
  with in_vs st(1) have "length vs > 1"
    using two_distinct_elements [of vs] by blast
  moreover from look have "(d, vs) \<in> set m" by (rule map_of_SomeD)
  ultimately have "(d, vs) \<in> set m \<and> length (snd (d, vs)) > 1" by simp
  then show "\<exists>e \<in> set m. length (snd e) > 1" by blast
qed

lemma versions_of_update:
  "versions_of (AList.update k vs m) d = (if d = k then set vs else versions_of m d)"
  by (simp add: versions_of_def update_conv')

lemma versions_of_record_peerDep:
  "versions_of (record_peerDep m (d', v)) d =
     (if d = d' then (case v of JStr s \<Rightarrow> insert s (versions_of m d) | _ \<Rightarrow> versions_of m d)
      else versions_of m d)"
proof -
  define m1 where "m1 = (if map_of m d' = None then AList.update d' [] m else m)"
  have v1: "versions_of m1 x = versions_of m x" for x
    unfolding m1_def by (simp add: versions_of_update) (simp add: versions_of_def)
  have look: "map_of m1 d' \<noteq> None"
    unfolding m1_def by (simp add: update_conv')
  have str: "versions_of (case map_of m1 d' of None \<Rightarrow> m1
                | Some vs \<Rightarrow> AList.update d' (set_add vs s) m1) d
             = (if d = d' then insert s (versions_of m d) else versions_of m d)" for s
  proof -
    from look obtain vs where vs: "map_of m1 d' = Some vs" by blast
    then have "versions_of m1 d' = set vs" by (simp add: versions_of_def)
    with vs v1 [of d] v1 [of d'] show ?thesis
      by (simp add: versions_of_update set_set_add)
  qed
  show ?thesis
    unfolding record_peerDep_def Let_def m1_def [symmetric] prod.case
    by (cases v) (simp_all add: str v1)
qed


lemma versions_of_foldl:
  "versions_of (foldl record_peerDep m es) d = versions_of m d \<union> {s. (d, JStr s) \<in> set es}"
proof (induction es arbitrary: m)
  case Nil
  show ?case by simp
next
  case (Cons e es)
  obtain d' v where e: "e = (d', v)" by (cases e)
  have "versions_of (record_peerDep m (d', v)) d = versions_of m d \<union> {s. (d, JStr s) = (d', v)}"
    unfolding versions_of_record_peerDep by (cases v) auto
  then show ?case
    unfolding foldl_Cons Cons.IH e by auto
qed

lemma fst_foldl_report_conflict:
  "fst (foldl report_conflict (f, w) m) = (f \<or> (\<exists>e \<in> set m. length (snd e) > 1))"
proof (induction m arbitrary: f w)
  case Nil
  show ?case by simp
next
  case (Cons e m)
  obtain d vs where e: "e = (d, vs)" by (cases e)
  show ?case
  proof (cases "length vs > 1")
    case True
    then show ?thesis
      unfolding foldl_Cons e by (simp add: report_conflict_def Cons.IH)
  next
    case False
    then show ?thesis
      unfolding foldl_Cons e by (simp add: report_conflict_def Cons.IH)
  qed
qed

section \<open>The effects of one round and of the loop\<close>

lemma getCompatibleVersion_requests:
  "requests (snd (getCompatibleVersion reg n V w)) = requests w @ [registry_url @ n]"
  by (simp add: getCompatibleVersion_def axios_get_def console_warn_def split: sum.splits reply.splits)

lemma getPeerDependencies_requests:
  "requests (snd (getPeerDependencies reg n v w)) = requests w @ [registry_url @ n @ ''/'' @ v]"
  by (simp add: getPeerDependencies_def axios_get_def console_warn_def split: sum.splits reply.splits)

lemma getCompatibleVersion_failed:
  "reg (length (requests w)) (registry_url @ n) = Failed \<Longrightarrow>
   fst (getCompatibleVersion reg n V w) = ''latest''"
  by (simp add: getCompatibleVersion_def axios_get_def)

lemma truthy_defined: "truthy v \<Longrightarrow> v \<noteq> JUndefined \<and> v \<noteq> JNull"
  by (cases v) simp_all

lemma getPeerDependencies_try_truthy: "getPeerDependencies_try data = Inr pd \<Longrightarrow> truthy pd"
  by (auto simp: getPeerDependencies_try_def js_or_def split: if_splits sum.splits)

lemma getPeerDependencies_truthy: "truthy (fst (getPeerDependencies reg n v w))"
  by (auto simp: getPeerDependencies_def axios_get_def getPeerDependencies_try_truthy
           split: sum.splits reply.splits)

lemma Object_entries_truthy: "truthy v \<Longrightarrow> Object_entries v = Inr (own_entries v)"
  using truthy_defined [of v] by (simp add: Object_entries_def)

lemma loop_body_Inr:
  "loop_body reg V pkg st =
     Inr \<lparr>resolvedPackages =
            resolvedPackages st
              @ [name pkg @ ''@'' @ fst (getCompatibleVersion reg (name pkg) V (world st))],
          compatibilityMap =
            foldl record_peerDep (compatibilityMap st)
              (own_entries
                 (fst (getPeerDependencies reg (name pkg)
                         (fst (getCompatibleVersion reg (name pkg) V (world st)))
                         (snd (getCompatibleVersion reg (name pkg) V (world st)))))),
          world =
            snd (getPeerDependencies reg (name pkg)
                   (fst (getCompatibleVersion reg (name pkg) V (world st)))
                   (snd (getCompatibleVersion reg (name pkg) V (world st))))\<rparr>"
proof -
  obtain ver w1 where c: "getCompatibleVersion reg (name pkg) V (world st) = (ver, w1)"
    by (cases "getCompatibleVersion reg (name pkg) V (world st)")
  obtain pd w2 where p: "getPeerDependencies reg (name pkg) ver w1 = (pd, w2)"
    by (cases "getPeerDependencies reg (name pkg) ver w1")
  have "truthy pd"
    using getPeerDependencies_truthy [of reg "name pkg" ver w1] p by simp
  then have "Object_entries pd = Inr (own_entries pd)"
    by (rule Object_entries_truthy)
  then show ?thesis
    by (simp add: loop_body_def c p)
qed

lemma length_resolutions: "length (resolutions reg V deps w) = length deps"
  by (induction deps arbitrary: w) (simp_all split: prod.splits)

lemma resolve_loop_Inr:
  "\<exists>st'. resolve_loop reg V deps st = Inr st' \<and>
     resolvedPackages st' =
       resolvedPackages st
         @ map2 (\<lambda>pkg r. name pkg @ ''@'' @ fst r) deps (resolutions reg V deps (world st)) \<and>
     compatibilityMap st' =
       foldl record_peerDep (compatibilityMap st)
         (concat (map (\<lambda>r. own_entries (snd r)) (resolutions reg V deps (world st)))) \<and>
     length (requests (world st')) = length (requests (world st)) + 2 * length deps \<and>
     (\<exists>more. requests (world st') = requests (world st) @ more)"
proof (induction deps arbitrary: st)
  case Nil
  show ?case by simp
next
  case (Cons pkg pkgs)
  obtain ver w1 where c: "getCompatibleVersion reg (name pkg) V (world st) = (ver, w1)"
    by (cases "getCompatibleVersion reg (name pkg) V (world st)")
  obtain pd w2 where p: "getPeerDependencies reg (name pkg) ver w1 = (pd, w2)"
    by (cases "getPeerDependencies reg (name pkg) ver w1")
  define st1 where
    "st1 = \<lparr>resolvedPackages = resolvedPackages st @ [name pkg @ ''@'' @ ver],
            compatibilityMap = foldl record_peerDep (compatibilityMap st) (own_entries pd),
            world = w2\<rparr>"
  have body: "loop_body reg V pkg st = Inr st1"
    by (simp add: loop_body_Inr c p st1_def)
  have r1: "requests w1 = requests (world st) @ [registry_url @ name pkg]"
    using getCompatibleVersion_requests [of reg "name pkg" V "world st"] c by simp
  have r2: "requests w2 = requests w1 @ [registry_url @ name pkg @ ''/'' @ ver]"
    using getPeerDependencies_requests [of reg "name pkg" ver w1] p by simp
  from Cons.IH [of st1] obtain st' where
    loop: "resolve_loop reg V pkgs st1 = Inr st'" and
    pk: "resolvedPackages st' =
           resolvedPackages st1
             @ map2 (\<lambda>pkg r. name pkg @ ''@'' @ fst r) pkgs (resolutions reg V pkgs (world st1))" and
    cm: "compatibilityMap st' =
           foldl record_peerDep (compatibilityMap st1)
             (concat (map (\<lambda>r. own_entries (snd r)) (resolutions reg V pkgs (world st1))))" and
    len: "length (requests (world st')) = length (requests (world st1)) + 2 * length pkgs" and
    more: "\<exists>more. requests (world st') = requests (world st1) @ more"
    by blast
  have "resolve_loop reg V (pkg # pkgs) st = Inr st'"
    by (simp add: body loop)
  moreover have "resolvedPackages st' =
       resolvedPackages st
         @ map2 (\<lambda>pkg r. name pkg @ ''@'' @ fst r) (pkg # pkgs)
             (resolutions reg V (pkg # pkgs) (world st))"
    by (simp add: pk c p st1_def)
  moreover have "compatibilityMap st' =
       foldl record_peerDep (compatibilityMap st)
         (concat (map (\<lambda>r. own_entries (snd r)) (resolutions reg V (pkg # pkgs) (world st))))"
    by (simp add: cm c p st1_def)
  moreover have "length (requests (world st')) =
       length (requests (world st)) + 2 * length (pkg # pkgs)"
    by (simp add: len st1_def r1 r2)
  moreover have "\<exists>more. requests (world st') = requests (world st) @ more"
    using more by (auto simp: st1_def r1 r2)
  ultimately show ?case by blast
qed

lemma resolutions_failed:
  "i < length deps \<Longrightarrow>
   reg (length (requests w) + 2 * i) (registry_url @ name (deps ! i)) = Failed \<Longrightarrow>
   fst (resolutions reg V deps w ! i) = ''latest''"
proof (induction deps arbitrary: w i)
  case Nil
  then show ?case by simp
next
  case (Cons pkg pkgs)
  obtain ver w1 where c: "getCompatibleVersion reg (name pkg) V w = (ver, w1)"
    by (cases "getCompatibleVersion reg (name pkg) V w")
  obtain pd w2 where p: "getPeerDependencies reg (name pkg) ver w1 = (pd, w2)"
    by (cases "getPeerDependencies reg (name pkg) ver w1")
  have r1: "requests w1 = requests w @ [registry_url @ name pkg]"
    using getCompatibleVersion_requests [of reg "name pkg" V w] c by simp
  have r2: "requests w2 = requests w1 @ [registry_url @ name pkg @ ''/'' @ ver]"
    using getPeerDependencies_requests [of reg "name pkg" ver w1] p by simp
  have res: "resolutions reg V (pkg # pkgs) w = (ver, pd) # resolutions reg V pkgs w2"
    by (simp add: c p)
  show ?case
  proof (cases i)
    case 0
    with Cons.prems have "reg (length (requests w)) (registry_url @ name pkg) = Failed"
      by simp
    then have "fst (getCompatibleVersion reg (name pkg) V w) = ''latest''"
      by (rule getCompatibleVersion_failed)
    with c have "ver = ''latest''" by simp
    with 0 show ?thesis unfolding res by simp
  next
    case (Suc j)
    with Cons.prems have j: "j < length pkgs"
      and "reg (length (requests w2) + 2 * j) (registry_url @ name (pkgs ! j)) = Failed"
      by (simp_all add: r1 r2)
    then have "fst (resolutions reg V pkgs w2 ! j) = ''latest''"
      by (rule Cons.IH)
    with Suc show ?thesis unfolding res by simp
  qed
qed

lemma snd_foldl_report_conflict_requests:
  "requests (snd (foldl report_conflict (f, w) m)) = requests w"
proof (induction m arbitrary: f w)
  case Nil
  show ?case by simp
next
  case (Cons e m)
  obtain d vs where e: "e = (d, vs)" by (cases e)
  show ?case
    unfolding foldl_Cons e
    by (cases "length vs > 1") (simp_all add: report_conflict_def Cons.IH console_warn_def)
qed

lemma resolve_loop_requests:
  "resolve_loop reg V deps st = Inr st' \<Longrightarrow>
   requests (world st') =
     requests (world st)
       @ concat (map2 (\<lambda>pkg r. [registry_url @ name pkg,
                                 registry_url @ name pkg @ ''/'' @ fst r])
                   deps (resolutions reg V deps (world st)))"
proof (induction deps arbitrary: st)
  case Nil
  then show ?case by simp
next
  case (Cons pkg pkgs)
  obtain ver w1 where c: "getCompatibleVersion reg (name pkg) V (world st) = (ver, w1)"
    by (cases "getCompatibleVersion reg (name pkg) V (world st)")
  obtain pd w2 where p: "getPeerDependencies reg (name pkg) ver w1 = (pd, w2)"
    by (cases "getPeerDependencies reg (name pkg) ver w1")
  define st1 where
    "st1 = \<lparr>resolvedPackages = resolvedPackages st @ [name pkg @ ''@'' @ ver],
            compatibilityMap = foldl record_peerDep (compatibilityMap st) (own_entries pd),
            world = w2\<rparr>"
  have body: "loop_body reg V pkg st = Inr st1"
    by (simp add: loop_body_Inr c p st1_def)
  have r1: "requests w1 = requests (world st) @ [registry_url @ name pkg]"
    using getCompatibleVersion_requests [of reg "name pkg" V "world st"] c by simp
  have r2: "requests w2 = requests w1 @ [registry_url @ name pkg @ ''/'' @ ver]"
    using getPeerDependencies_requests [of reg "name pkg" ver w1] p by simp
  from Cons.prems have "resolve_loop reg V pkgs st1 = Inr st'"
    by (simp add: body)
  then have "requests (world st') =
     requests (world st1)
       @ concat (map2 (\<lambda>pkg r. [registry_url @ name pkg,
                                 registry_url @ name pkg @ ''/'' @ fst r])
                   pkgs (resolutions reg V pkgs (world st1)))"
    by (rule Cons.IH)
  then show ?case
    by (simp add: c p st1_def r1 r2)
qed

section \<open>The packages of a resolution\<close>

text \<open>
  C5. For every target framework version and every list of \<open>N\<close> requests,
  \<^const>\<open>resolveDependencies_over\<close> returns, and its \<open>packages\<close> has \<open>N + 1\<close> entries:
  first the generator package \<^verbatim>\<open>@schematics/angular\<close> pinned to the target version, then
  for each request in request order its name, \<^verbatim>\<open>@\<close> and the version resolved for it. The
  requests sent to the registry are the two of each auxiliary package, in order: none is
  made for the generator package.
\<close>

theorem resolveDependencies_packages:
  "\<exists>res w'. resolveDependencies_over deps reg V w = Inr (res, w') \<and>
     length (packages res) = length deps + 1 \<and>
     packages res ! 0 = ''@schematics/angular@'' @ V \<and>
     (\<forall>i < length deps.
        packages res ! (i + 1) = name (deps ! i) @ ''@'' @ fst (resolutions reg V deps w ! i)) \<and>
     requests w' =
       requests w
         @ concat (map2 (\<lambda>pkg r. [registry_url @ name pkg,
                                   registry_url @ name pkg @ ''/'' @ fst r])
                     deps (resolutions reg V deps w))"
proof -
  define st0 where
    "st0 = \<lparr>resolvedPackages = [''@schematics/angular@'' @ V], compatibilityMap = [], world = w\<rparr>"
  from resolve_loop_Inr [of reg V deps st0] obtain st' where
    loop: "resolve_loop reg V deps st0 = Inr st'" and
    pk: "resolvedPackages st' =
           resolvedPackages st0
             @ map2 (\<lambda>pkg r. name pkg @ ''@'' @ fst r) deps (resolutions reg V deps (world st0))"
    by blast
  define out where "out = foldl report_conflict (False, world st') (compatibilityMap st')"
  define res where "res = \<lparr>packages = resolvedPackages st', forceInstall = fst out\<rparr>"
  have run: "resolveDependencies_over deps reg V w = Inr (res, snd out)"
    unfolding resolveDependencies_over_def st0_def [symmetric] loop
    by (simp add: out_def res_def split: prod.splits)
  have pk': "packages res =
      (''@schematics/angular@'' @ V)
        # map2 (\<lambda>pkg r. name pkg @ ''@'' @ fst r) deps (resolutions reg V deps w)"
    by (simp add: res_def pk st0_def)
  have len: "length (packages res) = length deps + 1"
    by (simp add: pk' length_resolutions)
  have first: "packages res ! 0 = ''@schematics/angular@'' @ V"
    by (simp add: pk')
  have rest: "packages res ! (i + 1) = name (deps ! i) @ ''@'' @ fst (resolutions reg V deps w ! i)"
    if "i < length deps" for i
    using that by (simp add: pk' length_resolutions)
  have "requests (snd out) = requests (world st')"
    unfolding out_def by (rule snd_foldl_report_conflict_requests)
  also have "\<dots> = requests w
         @ concat (map2 (\<lambda>pkg r. [registry_url @ name pkg,
                                   registry_url @ name pkg @ ''/'' @ fst r])
                     deps (resolutions reg V deps w))"
    using resolve_loop_requests [OF loop] by (simp add: st0_def)
  finally show ?thesis
    using run len first rest by blast
qed

theorem resolveDependencies_packages_witness:
  "\<exists>res w'.
     resolveDependencies
       (scripted
          [Reply (JObj [(''versions'',
             JObj [(''2.0.0'', JObj [(''peerDependencies'', JObj [(''@angular/core'', JStr ''17.0.0'')])]),
                   (''10.0.0'', JObj [(''peerDependencies'', JObj [(''@angular/core'', JStr ''17.0.0'')])])])])])
       ''17.0.0'' \<lparr>requests = [], console = []\<rparr> = Inr (res, w') \<and>
     length (packages res) = 6 \<and>
     packages res ! 0 = ''@schematics/angular@17.0.0'' \<and>
     packages res ! 1 = ''rxjs@10.0.0'' \<and>
     packages res ! 5 = ''keycloak-angular@latest''"
proof -
  define reg where "reg = scripted
          [Reply (JObj [(''versions'',
             JObj [(''2.0.0'', JObj [(''peerDependencies'', JObj [(''@angular/core'', JStr ''17.0.0'')])]),
                   (''10.0.0'', JObj [(''peerDependencies'', JObj [(''@angular/core'', JStr ''17.0.0'')])])])])]"
  define w0 where "w0 = \<lparr>requests = [], console = []\<rparr>"
  have ev: "map fst (resolutions reg ''17.0.0'' dependenciesToCheck w0)
              = [''10.0.0'', ''latest'', ''latest'', ''latest'', ''latest'']"
    unfolding reg_def w0_def by code_simp
  have l: "length dependenciesToCheck = 5"
    by (simp add: dependenciesToCheck_def)
  from resolveDependencies_packages [of dependenciesToCheck reg "''17.0.0''" w0]
  obtain res w' where
    run: "resolveDependencies_over dependenciesToCheck reg ''17.0.0'' w0 = Inr (res, w')" and
    len: "length (packages res) = length dependenciesToCheck + 1" and
    first: "packages res ! 0 = ''@schematics/angular@'' @ ''17.0.0''" and
    rest: "\<forall>i < length dependenciesToCheck.
        packages res ! (i + 1) =
          name (dependenciesToCheck ! i) @ ''@''
            @ fst (resolutions reg ''17.0.0'' dependenciesToCheck w0 ! i)"
    by blast
  have v: "fst (resolutions reg ''17.0.0'' dependenciesToCheck w0 ! i)
             = map fst (resolutions reg ''17.0.0'' dependenciesToCheck w0) ! i" if "i < 5" for i
    using that by (simp add: length_resolutions l)
  have n0: "name (dependenciesToCheck ! 0) = ''rxjs''"
    and n4: "name (dependenciesToCheck ! 4) = ''keycloak-angular''"
    by (simp_all add: dependenciesToCheck_def)
  have v0: "fst (resolutions reg ''17.0.0'' dependenciesToCheck w0 ! 0) = ''10.0.0''"
    and v4: "fst (resolutions reg ''17.0.0'' dependenciesToCheck w0 ! 4) = ''latest''"
    by (simp_all add: v ev)
  have "packages res ! (0 + 1) =
          name (dependenciesToCheck ! 0) @ ''@''
            @ fst (resolutions reg ''17.0.0'' dependenciesToCheck w0 ! 0)"
    using rest [rule_format, of 0] l by simp
  then have p1: "packages res ! 1 = ''rxjs@10.0.0''"
    by (simp add: n0 v0)
  have "packages res ! (4 + 1) =
          name (dependenciesToCheck ! 4) @ ''@''
            @ fst (resolutions reg ''17.0.0'' dependenciesToCheck w0 ! 4)"
    using rest [rule_format, of 4] l by simp
  then have p5: "packages res ! 5 = ''keycloak-angular@latest''"
    by (simp add: n4 v4)
  from run len first p1 p5 l show ?thesis
    unfolding resolveDependencies_def reg_def w0_def by simp
qed

section \<open>Failed fetches\<close>

lemma getCompatibleVersion_fst_cong:
  "length (requests w) = length (requests w') \<Longrightarrow>
   fst (getCompatibleVersion reg n V w) = fst (getCompatibleVersion reg n V w')"
  by (simp add: getCompatibleVersion_def axios_get_def split: sum.splits reply.splits)

lemma resolutions_nth_version:
  "i < length deps \<Longrightarrow>
   length (requests wi) = length (requests w) + 2 * i \<Longrightarrow>
   fst (resolutions reg V deps w ! i) = fst (getCompatibleVersion reg (name (deps ! i)) V wi)"
proof (induction deps arbitrary: w i)
  case Nil
  then show ?case by simp
next
  case (Cons pkg pkgs)
  obtain ver w1 where c: "getCompatibleVersion reg (name pkg) V w = (ver, w1)"
    by (cases "getCompatibleVersion reg (name pkg) V w")
  obtain pd w2 where p: "getPeerDependencies reg (name pkg) ver w1 = (pd, w2)"
    by (cases "getPeerDependencies reg (name pkg) ver w1")
  have r1: "requests w1 = requests w @ [registry_url @ name pkg]"
    using getCompatibleVersion_requests [of reg "name pkg" V w] c by simp
  have r2: "requests w2 = requests w1 @ [registry_url @ name pkg @ ''/'' @ ver]"
    using getPeerDependencies_requests [of reg "name pkg" ver w1] p by simp
  have res: "resolutions reg V (pkg # pkgs) w = (ver, pd) # resolutions reg V pkgs w2"
    by (simp add: c p)
  show ?case
  proof (cases i)
    case 0
    with Cons.prems have "length (requests w) = length (requests wi)"
      by simp
    then have "fst (getCompatibleVersion reg (name pkg) V w)
                 = fst (getCompatibleVersion reg (name pkg) V wi)"
      by (rule getCompatibleVersion_fst_cong)
    with c have "ver = fst (getCompatibleVersion reg (name pkg) V wi)"
      by simp
    with 0 show ?thesis unfolding res by simp
  next
    case (Suc j)
    with Cons.prems have j: "j < length pkgs"
      and "length (requests wi) = length (requests w2) + 2 * j"
      by (simp_all add: r1 r2)
    then have "fst (resolutions reg V pkgs w2 ! j)
                 = fst (getCompatibleVersion reg (name (pkgs ! j)) V wi)"
      by (rule Cons.IH)
    with Suc show ?thesis unfolding res by simp
  qed
qed

text \<open>
  C4. Whatever the registry answers, failed requests included,
  \<^const>\<open>resolveDependencies_over\<close> returns a result and no error, having sent both requests
  of every package of the list. Every package, also one after a package whose fetch
  failed, has in \<open>packages\<close> the entry of its name and the version that the loop resolves
  for it: the version that \<^const>\<open>getCompatibleVersion\<close> returns for the package from the
  reply to the request number \<open>2 * i\<close> of the run, for the package at position \<open>i\<close>. A
  package whose version listing could not be fetched is resolved to \<^verbatim>\<open>latest\<close>.
\<close>

theorem fetch_failure_never_aborts:
  "\<exists>res w'. resolveDependencies_over deps reg V w = Inr (res, w') \<and>
     length (packages res) = length deps + 1 \<and>
     length (requests w') = length (requests w) + 2 * length deps \<and>
     (\<forall>i < length deps.
        packages res ! (i + 1) = name (deps ! i) @ ''@'' @ fst (resolutions reg V deps w ! i) \<and>
        (\<forall>wi. length (requests wi) = length (requests w) + 2 * i \<longrightarrow>
           packages res ! (i + 1)
             = name (deps ! i) @ ''@'' @ fst (getCompatibleVersion reg (name (deps ! i)) V wi)) \<and>
        (reg (length (requests w) + 2 * i) (registry_url @ name (deps ! i)) = Failed \<longrightarrow>
           packages res ! (i + 1) = name (deps ! i) @ ''@latest''))"
proof -
  define st0 where
    "st0 = \<lparr>resolvedPackages = [''@schematics/angular@'' @ V], compatibilityMap = [], world = w\<rparr>"
  from resolve_loop_Inr [of reg V deps st0] obtain st' where
    loop: "resolve_loop reg V deps st0 = Inr st'" and
    pk: "resolvedPackages st' =
           resolvedPackages st0
             @ map2 (\<lambda>pkg r. name pkg @ ''@'' @ fst r) deps (resolutions reg V deps (world st0))" and
    rq: "length (requests (world st')) = length (requests (world st0)) + 2 * length deps"
    by blast
  define out where "out = foldl report_conflict (False, world st') (compatibilityMap st')"
  define res where "res = \<lparr>packages = resolvedPackages st', forceInstall = fst out\<rparr>"
  have run: "resolveDependencies_over deps reg V w = Inr (res, snd out)"
    unfolding resolveDependencies_over_def st0_def [symmetric] loop
    by (simp add: out_def res_def split: prod.splits)
  have pk': "packages res =
      (''@schematics/angular@'' @ V)
        # map2 (\<lambda>pkg r. name pkg @ ''@'' @ fst r) deps (resolutions reg V deps w)"
    by (simp add: res_def pk st0_def)
  have len: "length (packages res) = length deps + 1"
    by (simp add: pk' length_resolutions)
  have "requests (snd out) = requests (world st')"
    unfolding out_def by (rule snd_foldl_report_conflict_requests)
  with rq have sent: "length (requests (snd out)) = length (requests w) + 2 * length deps"
    by (simp add: st0_def)
  have entry: "packages res ! (i + 1) = name (deps ! i) @ ''@'' @ fst (resolutions reg V deps w ! i)"
    if "i < length deps" for i
    using that by (simp add: pk' length_resolutions)
  have each: "packages res ! (i + 1) = name (deps ! i) @ ''@'' @ fst (resolutions reg V deps w ! i) \<and>
        (\<forall>wi. length (requests wi) = length (requests w) + 2 * i \<longrightarrow>
           packages res ! (i + 1)
             = name (deps ! i) @ ''@'' @ fst (getCompatibleVersion reg (name (deps ! i)) V wi)) \<and>
        (reg (length (requests w) + 2 * i) (registry_url @ name (deps ! i)) = Failed \<longrightarrow>
           packages res ! (i + 1) = name (deps ! i) @ ''@latest'')"
    if i: "i < length deps" for i
  proof (intro conjI allI impI)
    from i show "packages res ! (i + 1)
                   = name (deps ! i) @ ''@'' @ fst (resolutions reg V deps w ! i)"
      by (rule entry)
  next
    fix wi :: world
    assume "length (requests wi) = length (requests w) + 2 * i"
    with i have "fst (resolutions reg V deps w ! i)
                   = fst (getCompatibleVersion reg (name (deps ! i)) V wi)"
      by (rule resolutions_nth_version)
    with entry [OF i] show "packages res ! (i + 1)
             = name (deps ! i) @ ''@'' @ fst (getCompatibleVersion reg (name (deps ! i)) V wi)"
      by simp
  next
    assume "reg (length (requests w) + 2 * i) (registry_url @ name (deps ! i)) = Failed"
    with i have "fst (resolutions reg V deps w ! i) = ''latest''"
      by (rule resolutions_failed)
    with entry [OF i] show "packages res ! (i + 1) = name (deps ! i) @ ''@latest''"
      by simp
  qed
  show ?thesis
    by (rule exI [of _ res], rule exI [of _ "snd out"])
       (intro conjI allI impI run len sent each)
qed

theorem fetch_failure_never_aborts_witness:
  "\<exists>res w'.
     resolveDependencies
       (scripted
          [Failed, Failed,
           Reply (JObj [(''versions'',
             JObj [(''17.3.1'', JObj [(''peerDependencies'', JObj [(''@angular/core'', JStr ''17.0.0'')])])])])])
       ''17.0.0'' \<lparr>requests = [], console = []\<rparr> = Inr (res, w') \<and>
     length (packages res) = 6 \<and>
     length (requests w') = 10 \<and>
     packages res ! 1 = ''rxjs@latest'' \<and>
     packages res ! 2 = ''primeng@17.3.1''"
proof -
  define reg where "reg = scripted
          [Failed, Failed,
           Reply (JObj [(''versions'',
             JObj [(''17.3.1'', JObj [(''peerDependencies'', JObj [(''@angular/core'', JStr ''17.0.0'')])])])])]"
  define w0 where "w0 = \<lparr>requests = [], console = []\<rparr>"
  define w2 where "w2 = \<lparr>requests = [''a'', ''b''], console = []\<rparr>"
  have l: "length dependenciesToCheck = 5"
    by (simp add: dependenciesToCheck_def)
  have n0: "name (dependenciesToCheck ! 0) = ''rxjs''"
    and n1: "name (dependenciesToCheck ! Suc 0) = ''primeng''"
    by (simp_all add: dependenciesToCheck_def)
  have failed: "reg (length (requests w0) + 2 * 0) (registry_url @ name (dependenciesToCheck ! 0)) = Failed"
    by (simp add: reg_def w0_def scripted_def)
  have at2: "length (requests w2) = length (requests w0) + 2 * 1"
    by (simp add: w0_def w2_def)
  have ev: "fst (getCompatibleVersion reg ''primeng'' ''17.0.0'' w2) = ''17.3.1''"
    unfolding reg_def w2_def by code_simp
  from fetch_failure_never_aborts [of dependenciesToCheck reg "''17.0.0''" w0]
  obtain res w' where
    run: "resolveDependencies_over dependenciesToCheck reg ''17.0.0'' w0 = Inr (res, w')" and
    len: "length (packages res) = length dependenciesToCheck + 1" and
    sent: "length (requests w') = length (requests w0) + 2 * length dependenciesToCheck" and
    each: "\<forall>i < length dependenciesToCheck.
        packages res ! (i + 1)
          = name (dependenciesToCheck ! i) @ ''@''
              @ fst (resolutions reg ''17.0.0'' dependenciesToCheck w0 ! i) \<and>
        (\<forall>wi. length (requests wi) = length (requests w0) + 2 * i \<longrightarrow>
           packages res ! (i + 1)
             = name (dependenciesToCheck ! i) @ ''@''
                 @ fst (getCompatibleVersion reg (name (dependenciesToCheck ! i)) ''17.0.0'' wi)) \<and>
        (reg (length (requests w0) + 2 * i) (registry_url @ name (dependenciesToCheck ! i)) = Failed \<longrightarrow>
           packages res ! (i + 1) = name (dependenciesToCheck ! i) @ ''@latest'')"
    by (elim exE conjE) (rule that; assumption)
  from l have i0: "0 < length dependenciesToCheck" and i1: "1 < length dependenciesToCheck"
    by simp_all
  from each [rule_format, OF i0, THEN conjunct2, THEN conjunct2, rule_format, OF failed]
  have p1: "packages res ! 1 = ''rxjs@latest''"
    by (simp add: n0)
  from each [rule_format, OF i1, THEN conjunct2, THEN conjunct1, rule_format, OF at2]
  have p2: "packages res ! 2 = ''primeng@17.3.1''"
    by (simp add: n1 ev numeral_2_eq_2)
  from sent l have s: "length (requests w') = 10"
    by (simp add: w0_def)
  from run len s p1 p2 l show ?thesis
    unfolding resolveDependencies_def reg_def w0_def by simp
qed

section \<open>The conflict flag\<close>

lemma resolveDependencies_over_forceInstall:
  "\<exists>res w'. resolveDependencies_over deps reg V w = Inr (res, w') \<and>
     forceInstall res =
       (\<exists>e \<in> set (foldl record_peerDep []
                     (concat (map (\<lambda>r. own_entries (snd r)) (resolutions reg V deps w)))).
          length (snd e) > 1)"
proof -
  define st0 where
    "st0 = \<lparr>resolvedPackages = [''@schematics/angular@'' @ V], compatibilityMap = [], world = w\<rparr>"
  from resolve_loop_Inr [of reg V deps st0] obtain st' where
    loop: "resolve_loop reg V deps st0 = Inr st'" and
    cm: "compatibilityMap st' =
           foldl record_peerDep (compatibilityMap st0)
             (concat (map (\<lambda>r. own_entries (snd r)) (resolutions reg V deps (world st0))))"
    by blast
  define out where "out = foldl report_conflict (False, world st') (compatibilityMap st')"
  define res where "res = \<lparr>packages = resolvedPackages st', forceInstall = fst out\<rparr>"
  have run: "resolveDependencies_over deps reg V w = Inr (res, snd out)"
    unfolding resolveDependencies_over_def st0_def [symmetric] loop
    by (simp add: out_def res_def split: prod.splits)
  have "forceInstall res = (\<exists>e \<in> set (compatibilityMap st'). length (snd e) > 1)"
    by (simp add: res_def out_def fst_foldl_report_conflict)
  with run show ?thesis
    unfolding cm by (simp add: st0_def)
qed

text \<open>
  C1. For every list of requests, the \<open>forceInstall\<close> flag of the result is true exactly
  when some peer-dependency name was recorded with two different version-spec strings
  among the peer dependencies of all resolved packages: two packages that declare
  different specs for one name set it, agreement on every shared name leaves it false.
\<close>

theorem forceInstall_iff_conflict:
  "\<exists>res w'. resolveDependencies_over deps reg V w = Inr (res, w') \<and>
     (forceInstall res \<longleftrightarrow>
        (\<exists>depName s t. s \<noteq> t \<and>
           (\<exists>r \<in> set (resolutions reg V deps w). (depName, JStr s) \<in> set (own_entries (snd r))) \<and>
           (\<exists>r \<in> set (resolutions reg V deps w). (depName, JStr t) \<in> set (own_entries (snd r)))))"
proof -
  define es where
    "es = concat (map (\<lambda>r. own_entries (snd r)) (resolutions reg V deps w))"
  define m where "m = foldl record_peerDep [] es"
  have wf: "wf_map m"
    unfolding m_def by (rule wf_map_foldl) (rule wf_map_Nil)
  have recorded: "s \<in> versions_of m d \<longleftrightarrow>
      (\<exists>r \<in> set (resolutions reg V deps w). (d, JStr s) \<in> set (own_entries (snd r)))" for d s
    unfolding m_def versions_of_foldl by (auto simp: es_def versions_of_def)
  from resolveDependencies_over_forceInstall [of deps reg V w] obtain res w' where
    run: "resolveDependencies_over deps reg V w = Inr (res, w')" and
    flag: "forceInstall res = (\<exists>e \<in> set m. length (snd e) > 1)"
    unfolding m_def es_def by blast
  have "forceInstall res =
      (\<exists>d s t. s \<noteq> t \<and> s \<in> versions_of m d \<and> t \<in> versions_of m d)"
    unfolding flag by (rule conflict_iff_versions_of [OF wf])
  with run show ?thesis
    unfolding recorded by blast
qed

theorem forceInstall_iff_conflict_witness:
  "(\<exists>res w'.
      resolveDependencies
        (scripted
           [Failed, Reply (JObj [(''peerDependencies'', JObj [(''zone.js'', JStr ''~0.11.0'')])]),
            Failed, Reply (JObj [(''peerDependencies'', JObj [(''zone.js'', JStr ''~0.14.0'')])])])
        ''17.0.0'' \<lparr>requests = [], console = []\<rparr> = Inr (res, w') \<and>
      forceInstall res) \<and>
   (\<exists>res w'.
      resolveDependencies
        (scripted
           [Failed, Reply (JObj [(''peerDependencies'', JObj [(''zone.js'', JStr ''~0.14.0'')])]),
            Failed, Reply (JObj [(''peerDependencies'', JObj [(''zone.js'', JStr ''~0.14.0'')])])])
        ''17.0.0'' \<lparr>requests = [], console = []\<rparr> = Inr (res, w') \<and>
      \<not> forceInstall res)"
proof
  define reg where "reg = scripted
           [Failed, Reply (JObj [(''peerDependencies'', JObj [(''zone.js'', JStr ''~0.11.0'')])]),
            Failed, Reply (JObj [(''peerDependencies'', JObj [(''zone.js'', JStr ''~0.14.0'')])])]"
  define w0 where "w0 = \<lparr>requests = [], console = []\<rparr>"
  define rs where "rs = resolutions reg ''17.0.0'' dependenciesToCheck w0"
  have ev: "map snd rs =
      [JObj [(''zone.js'', JStr ''~0.11.0'')], JObj [(''zone.js'', JStr ''~0.14.0'')],
       JObj [], JObj [], JObj []]"
    unfolding rs_def reg_def w0_def by code_simp
  have "JObj [(''zone.js'', JStr ''~0.11.0'')] \<in> set (map snd rs)"
    and "JObj [(''zone.js'', JStr ''~0.14.0'')] \<in> set (map snd rs)"
    unfolding ev by simp_all
  then obtain r1 r2 where
    r1: "r1 \<in> set rs" "snd r1 = JObj [(''zone.js'', JStr ''~0.11.0'')]" and
    r2: "r2 \<in> set rs" "snd r2 = JObj [(''zone.js'', JStr ''~0.14.0'')]"
    by auto
  have "(''zone.js'', JStr ''~0.11.0'') \<in> set (own_entries (snd r1))"
    and "(''zone.js'', JStr ''~0.14.0'') \<in> set (own_entries (snd r2))"
    by (simp_all add: r1 r2)
  with r1(1) r2(1) have conflict:
    "\<exists>depName s t. s \<noteq> t \<and>
       (\<exists>r \<in> set rs. (depName, JStr s) \<in> set (own_entries (snd r))) \<and>
       (\<exists>r \<in> set rs. (depName, JStr t) \<in> set (own_entries (snd r)))"
    by (intro exI [of _ "''zone.js''"] exI [of _ "''~0.11.0''"] exI [of _ "''~0.14.0''"]) auto
  from forceInstall_iff_conflict [of dependenciesToCheck reg "''17.0.0''" w0] conflict
  have "\<exists>res w'. resolveDependencies_over dependenciesToCheck reg ''17.0.0'' w0 = Inr (res, w') \<and>
          forceInstall res"
    unfolding rs_def by blast
  then show "\<exists>res w'.
      resolveDependencies
        (scripted
           [Failed, Reply (JObj [(''peerDependencies'', JObj [(''zone.js'', JStr ''~0.11.0'')])]),
            Failed, Reply (JObj [(''peerDependencies'', JObj [(''zone.js'', JStr ''~0.14.0'')])])])
        ''17.0.0'' \<lparr>requests = [], console = []\<rparr> = Inr (res, w') \<and>
      forceInstall res"
    unfolding resolveDependencies_def reg_def w0_def .
next
  have "map_sum id (\<lambda>p. forceInstall (fst p))
          (resolveDependencies
             (scripted
                [Failed, Reply (JObj [(''peerDependencies'', JObj [(''zone.js'', JStr ''~0.14.0'')])]),
                 Failed, Reply (JObj [(''peerDependencies'', JObj [(''zone.js'', JStr ''~0.14.0'')])])])
             ''17.0.0'' \<lparr>requests = [], console = []\<rparr>)
        = Inr False"
    by code_simp
  then show "\<exists>res w'.
      resolveDependencies
        (scripted
           [Failed, Reply (JObj [(''peerDependencies'', JObj [(''zone.js'', JStr ''~0.14.0'')])]),
            Failed, Reply (JObj [(''peerDependencies'', JObj [(''zone.js'', JStr ''~0.14.0'')])])])
        ''17.0.0'' \<lparr>requests = [], console = []\<rparr> = Inr (res, w') \<and>
      \<not> forceInstall res"
    by (cases "resolveDependencies
        (scripted
           [Failed, Reply (JObj [(''peerDependencies'', JObj [(''zone.js'', JStr ''~0.14.0'')])]),
            Failed, Reply (JObj [(''peerDependencies'', JObj [(''zone.js'', JStr ''~0.14.0'')])])])
        ''17.0.0'' \<lparr>requests = [], console = []\<rparr>") auto
qed

section \<open>Peer-dependency values that are not strings\<close>

lemma update_absent: "map_of m k = None \<Longrightarrow> AList.update k v m = m @ [(k, v)]"
  by (induction m) (auto split: if_splits)

lemma typeof_string: "typeof v = ''string'' \<longleftrightarrow> (\<exists>s. v = JStr s)"
  by (cases v) simp_all

lemma record_peerDep_nonstring:
  assumes "typeof depVersion \<noteq> ''string''"
  shows "record_peerDep m (depName, depVersion) =
           (if map_of m depName = None then m @ [(depName, [])] else m)"
  using assms
  by (cases depVersion) (simp_all add: record_peerDep_def Let_def update_absent)

lemma versions_of_nonstring:
  assumes "typeof depVersion \<noteq> ''string''"
  shows "versions_of (record_peerDep m (depName, depVersion)) d = versions_of m d"
  using assms
  unfolding versions_of_record_peerDep by (cases depVersion) simp_all

text \<open>
  C9. A peer-dependency entry whose value is not a string adds no value to the conflict
  map: the round only enters its name with an empty set when the name is not yet a key,
  the version specs recorded under every name stay what they were, and whatever is
  recorded afterwards the scan for conflicts gives the flag it would give had the entry
  been left out. The map is one the loop builds (no key and no element twice).
\<close>

theorem nonstring_peerDep_never_conflicts:
  assumes "typeof depVersion \<noteq> ''string''" and "wf_map m"
  shows "record_peerDep m (depName, depVersion) =
           (if map_of m depName = None then m @ [(depName, [])] else m) \<and>
         (\<forall>d. versions_of (record_peerDep m (depName, depVersion)) d = versions_of m d) \<and>
         (\<forall>later f w.
            fst (foldl report_conflict (f, w)
                   (foldl record_peerDep (record_peerDep m (depName, depVersion)) later)) =
            fst (foldl report_conflict (f, w) (foldl record_peerDep m later)))"
proof (intro conjI allI)
  show "record_peerDep m (depName, depVersion) =
           (if map_of m depName = None then m @ [(depName, [])] else m)"
    using assms(1) by (rule record_peerDep_nonstring)
  show "versions_of (record_peerDep m (depName, depVersion)) d = versions_of m d" for d
    using assms(1) by (rule versions_of_nonstring)
  show "fst (foldl report_conflict (f, w)
                   (foldl record_peerDep (record_peerDep m (depName, depVersion)) later)) =
            fst (foldl report_conflict (f, w) (foldl record_peerDep m later))" for later f w
  proof -
    define m' where "m' = record_peerDep m (depName, depVersion)"
    have wf': "wf_map (foldl record_peerDep m' later)"
      unfolding m'_def using assms(2) by (intro wf_map_foldl wf_map_record_peerDep)
    have wf: "wf_map (foldl record_peerDep m later)"
      using assms(2) by (rule wf_map_foldl)
    have same: "versions_of (foldl record_peerDep m' later) d
                  = versions_of (foldl record_peerDep m later) d" for d
      unfolding versions_of_foldl m'_def versions_of_nonstring [OF assms(1)] ..
    show ?thesis
      unfolding m'_def [symmetric] fst_foldl_report_conflict
        conflict_iff_versions_of [OF wf'] conflict_iff_versions_of [OF wf] same ..
  qed
qed

theorem nonstring_peerDep_never_conflicts_witness:
  "record_peerDep [(''zone.js'', [''~0.14.0''])] (''rxjs'', JNum 7) =
     [(''zone.js'', [''~0.14.0'']), (''rxjs'', [])] \<and>
   versions_of (record_peerDep [(''zone.js'', [''~0.14.0''])] (''rxjs'', JNum 7)) ''rxjs'' = {} \<and>
   fst (foldl report_conflict (False, \<lparr>requests = [], console = []\<rparr>)
          (foldl record_peerDep (record_peerDep [(''zone.js'', [''~0.14.0''])] (''rxjs'', JNum 7))
             [(''rxjs'', JStr ''^7.8.0'')])) = False"
proof -
  have t: "typeof (JNum 7) \<noteq> ''string''" by simp
  have wf: "wf_map [(''zone.js'', [''~0.14.0''])]" by (simp add: wf_map_def)
  have v: "versions_of [(''zone.js'', [''~0.14.0''])] ''rxjs'' = {}"
    by (simp add: versions_of_def)
  have f: "fst (foldl report_conflict (False, \<lparr>requests = [], console = []\<rparr>)
             (foldl record_peerDep [(''zone.js'', [''~0.14.0''])] [(''rxjs'', JStr ''^7.8.0'')]))
           = False"
    by code_simp
  from nonstring_peerDep_never_conflicts [OF t wf, of "''rxjs''"]
  have shape: "record_peerDep [(''zone.js'', [''~0.14.0''])] (''rxjs'', JNum 7) =
           (if map_of [(''zone.js'', [''~0.14.0''])] ''rxjs'' = None
            then [(''zone.js'', [''~0.14.0''])] @ [(''rxjs'', [])]
            else [(''zone.js'', [''~0.14.0''])])"
    and same: "\<forall>d. versions_of (record_peerDep [(''zone.js'', [''~0.14.0''])] (''rxjs'', JNum 7)) d
                 = versions_of [(''zone.js'', [''~0.14.0''])] d"
    and flag: "\<forall>later f w.
            fst (foldl report_conflict (f, w)
                   (foldl record_peerDep
                      (record_peerDep [(''zone.js'', [''~0.14.0''])] (''rxjs'', JNum 7)) later)) =
            fst (foldl report_conflict (f, w)
                   (foldl record_peerDep [(''zone.js'', [''~0.14.0''])] later))"
    by blast+
  from shape have "record_peerDep [(''zone.js'', [''~0.14.0''])] (''rxjs'', JNum 7) =
     [(''zone.js'', [''~0.14.0'']), (''rxjs'', [])]"
    by simp
  moreover from same v
  have "versions_of (record_peerDep [(''zone.js'', [''~0.14.0''])] (''rxjs'', JNum 7)) ''rxjs'' = {}"
    by simp
  moreover from flag [rule_format, of False "\<lparr>requests = [], console = []\<rparr>"
                        "[(''rxjs'', JStr ''^7.8.0'')]"] f
  have "fst (foldl report_conflict (False, \<lparr>requests = [], console = []\<rparr>)
          (foldl record_peerDep (record_peerDep [(''zone.js'', [''~0.14.0''])] (''rxjs'', JNum 7))
             [(''rxjs'', JStr ''^7.8.0'')])) = False"
    by simp
  ultimately show ?thesis by blast
qed

section \<open>A failed fetch of the peer dependencies\<close>

text \<open>
  C8. For every package name and version, when the request for the version's document
  fails, \<^const>\<open>getPeerDependencies\<close> logs its warning and returns the empty object, not an
  error; and its caller, the round of the loop, takes that as no peer-dependency data:
  the round ends normally with the conflict map as it was and the package appended.
\<close>

theorem getPeerDependencies_failed:
  "(reg (length (requests w)) (registry_url @ packageName @ ''/'' @ ver) = Failed \<longrightarrow>
      getPeerDependencies reg packageName ver w =
        (JObj [],
         \<lparr>requests = requests w @ [registry_url @ packageName @ ''/'' @ ver],
          console = console w
            @ [''Could not fetch peer dependencies for '' @ packageName @ ''@'' @ ver]\<rparr>)) \<and>
   (getCompatibleVersion reg (name pkg) V (world st) = (v1, w1) \<and>
    reg (length (requests w1)) (registry_url @ name pkg @ ''/'' @ v1) = Failed \<longrightarrow>
      (\<exists>st'. loop_body reg V pkg st = Inr st' \<and>
         compatibilityMap st' = compatibilityMap st \<and>
         resolvedPackages st' = resolvedPackages st @ [name pkg @ ''@'' @ v1]))"
proof (intro conjI impI)
  assume "reg (length (requests w)) (registry_url @ packageName @ ''/'' @ ver) = Failed"
  then show "getPeerDependencies reg packageName ver w =
        (JObj [],
         \<lparr>requests = requests w @ [registry_url @ packageName @ ''/'' @ ver],
          console = console w
            @ [''Could not fetch peer dependencies for '' @ packageName @ ''@'' @ ver]\<rparr>)"
    by (simp add: getPeerDependencies_def axios_get_def console_warn_def)
next
  assume a: "getCompatibleVersion reg (name pkg) V (world st) = (v1, w1) \<and>
    reg (length (requests w1)) (registry_url @ name pkg @ ''/'' @ v1) = Failed"
  then have "fst (getPeerDependencies reg (name pkg) v1 w1) = JObj []"
    by (simp add: getPeerDependencies_def axios_get_def)
  with a show "\<exists>st'. loop_body reg V pkg st = Inr st' \<and>
         compatibilityMap st' = compatibilityMap st \<and>
         resolvedPackages st' = resolvedPackages st @ [name pkg @ ''@'' @ v1]"
    by (simp add: loop_body_Inr)
qed

theorem getPeerDependencies_failed_witness:
  "getPeerDependencies (scripted []) ''primeng'' ''17.3.1'' \<lparr>requests = [], console = []\<rparr> =
     (JObj [],
      \<lparr>requests = [''https://registry.npmjs.org/primeng/17.3.1''],
       console = [''Could not fetch peer dependencies for primeng@17.3.1'']\<rparr>) \<and>
   (\<exists>st'. loop_body (scripted []) ''17.0.0'' \<lparr>name = ''primeng'', version = ''latest''\<rparr>
             \<lparr>resolvedPackages = [''@schematics/angular@17.0.0''],
              compatibilityMap = [(''zone.js'', [''~0.14.0''])],
              world = \<lparr>requests = [], console = []\<rparr>\<rparr> = Inr st' \<and>
          compatibilityMap st' = [(''zone.js'', [''~0.14.0''])] \<and>
          resolvedPackages st' = [''@schematics/angular@17.0.0'', ''primeng@latest''])"
proof -
  define w0 where "w0 = \<lparr>requests = [], console = []\<rparr>"
  define st where "st = \<lparr>resolvedPackages = [''@schematics/angular@17.0.0''],
              compatibilityMap = [(''zone.js'', [''~0.14.0''])],
              world = w0\<rparr>"
  define pkg where "pkg = \<lparr>name = ''primeng'', version = ''latest''\<rparr>"
  define w1 where "w1 = snd (getCompatibleVersion (scripted []) (name pkg) ''17.0.0'' (world st))"
  have f1: "scripted [] (length (requests w0)) (registry_url @ ''primeng'' @ ''/'' @ ''17.3.1'') = Failed"
    by (simp add: scripted_def)
  have c: "getCompatibleVersion (scripted []) (name pkg) ''17.0.0'' (world st) = (''latest'', w1)"
    unfolding w1_def
    by (simp add: getCompatibleVersion_def axios_get_def scripted_def)
  have f2: "scripted [] (length (requests w1)) (registry_url @ name pkg @ ''/'' @ ''latest'') = Failed"
    by (simp add: scripted_def)
  from getPeerDependencies_failed
         [of "scripted []" w0 "''primeng''" "''17.3.1''" pkg "''17.0.0''" st "''latest''" w1]
       f1 c f2
  have "getPeerDependencies (scripted []) ''primeng'' ''17.3.1'' w0 =
        (JObj [],
         \<lparr>requests = requests w0 @ [registry_url @ ''primeng'' @ ''/'' @ ''17.3.1''],
          console = console w0
            @ [''Could not fetch peer dependencies for '' @ ''primeng'' @ ''@'' @ ''17.3.1'']\<rparr>)"
    and "\<exists>st'. loop_body (scripted []) ''17.0.0'' pkg st = Inr st' \<and>
         compatibilityMap st' = compatibilityMap st \<and>
         resolvedPackages st' = resolvedPackages st @ [name pkg @ ''@'' @ ''latest'']"
    by blast+
  then show ?thesis
    unfolding w0_def st_def pkg_def by (simp add: registry_url_def)
qed

section \<open>The version that is chosen\<close>

lemma getCompatibleVersion_value:
  "fst (getCompatibleVersion reg n V w) =
     (case reg (length (requests w)) (registry_url @ n) of
        Failed \<Rightarrow> ''latest''
      | Reply data \<Rightarrow>
          (case getCompatibleVersion_try data V of Inl e \<Rightarrow> ''latest'' | Inr v \<Rightarrow> v))"
  by (simp add: getCompatibleVersion_def axios_get_def split: reply.splits sum.splits)

lemma filter_err_Inr:
  "filter_err p xs = Inr ys \<Longrightarrow> ys = filter (\<lambda>x. p x = Inr True) xs"
  by (induction xs arbitrary: ys) (auto split: sum.splits)

lemma filter_err_total:
  "\<forall>x \<in> set xs. \<exists>b. p x = Inr b \<Longrightarrow>
   filter_err p xs = Inr (filter (\<lambda>x. p x = Inr True) xs)"
  by (induction xs) (auto split: sum.splits)

lemma filter_err_Inl:
  "x \<in> set xs \<Longrightarrow> p x = Inl e \<Longrightarrow> \<exists>e'. filter_err p xs = Inl e'"
  by (induction xs) (auto split: sum.splits)

lemma sort_head:
  fixes qs :: "string list"
  assumes "sort qs = v # rest"
  shows "v \<in> set qs \<and> (\<forall>u \<in> set qs. v \<le> u)"
proof -
  have "set (sort qs) = set qs" by simp
  with assms have s: "set qs = insert v (set rest)" by simp
  have "sorted (sort qs)" by simp
  with assms have "\<forall>u \<in> set rest. v \<le> u" by simp
  with s show ?thesis by auto
qed

lemma compatible_True_iff:
  "compatible versions V v = Inr True \<longleftrightarrow>
     (\<exists>entry pd. js_get versions v = Inr entry \<and>
        js_get entry ''peerDependencies'' = Inr pd \<and>
        js_get (js_or pd (JObj [])) ''@angular/core'' = Inr (JStr V))"
  by (auto simp: compatible_def split: sum.splits)

lemma getCompatibleVersion_try_Inr:
  assumes "getCompatibleVersion_try data V = Inr v"
  shows "v = ''latest'' \<or>
         (\<exists>versions. js_get data ''versions'' = Inr versions \<and>
            v \<in> set (map fst (own_entries versions)) \<and>
            compatible versions V v = Inr True \<and> v \<noteq> [] \<and>
            (\<forall>u \<in> set (map fst (own_entries versions)).
               compatible versions V u = Inr True \<longrightarrow> v \<le> u))"
proof (cases "typeof data = ''object'' \<and> data \<noteq> JNull")
  case False
  with assms show ?thesis
    by (auto simp: getCompatibleVersion_try_def)
next
  case True
  with assms obtain versions ks qs where
    vs: "js_get data ''versions'' = Inr versions" and
    ks: "Object_keys versions = Inr ks" and
    qs: "filter_err (compatible versions V) ks = Inr qs" and
    v: "v = (case sort qs of [] \<Rightarrow> ''latest''
             | c # rest \<Rightarrow> if c \<noteq> [] then c else ''latest'')"
    by (auto simp: getCompatibleVersion_try_def split: sum.splits list.splits if_splits)
  from ks have ks': "ks = map fst (own_entries versions)"
    by (simp add: Object_keys_def split: if_splits)
  from qs have qs': "qs = filter (\<lambda>x. compatible versions V x = Inr True) ks"
    by (rule filter_err_Inr)
  show ?thesis
  proof (cases "sort qs")
    case Nil
    with v show ?thesis by simp
  next
    case (Cons c rest)
    then have c: "c \<in> set qs \<and> (\<forall>u \<in> set qs. c \<le> u)"
      by (rule sort_head)
    show ?thesis
    proof (cases "c = []")
      case True
      with v Cons show ?thesis by simp
    next
      case False
      with v Cons have "v = c" by simp
      with c False vs show ?thesis
        unfolding qs' ks' by auto
    qed
  qed
qed

text \<open>
  C6. The version that \<^const>\<open>getCompatibleVersion\<close> resolves is the literal
  \<^verbatim>\<open>latest\<close>, or a key of the listing's \<^verbatim>\<open>versions\<close> whose entry declares, as its peer
  dependency on \<^verbatim>\<open>@angular/core\<close>, the very string that is the target framework version:
  the comparison is equality of strings, no range is matched.
\<close>

theorem getCompatibleVersion_latest_or_compatible:
  "fst (getCompatibleVersion reg packageName V w) = ''latest'' \<or>
   (\<exists>data versions entry pd.
      reg (length (requests w)) (registry_url @ packageName) = Reply data \<and>
      js_get data ''versions'' = Inr versions \<and>
      fst (getCompatibleVersion reg packageName V w) \<in> set (map fst (own_entries versions)) \<and>
      js_get versions (fst (getCompatibleVersion reg packageName V w)) = Inr entry \<and>
      js_get entry ''peerDependencies'' = Inr pd \<and>
      js_get (js_or pd (JObj [])) ''@angular/core'' = Inr (JStr V))"
proof (cases "reg (length (requests w)) (registry_url @ packageName)")
  case Failed
  then show ?thesis
    by (simp add: getCompatibleVersion_value)
next
  case (Reply data)
  show ?thesis
  proof (cases "getCompatibleVersion_try data V")
    case (Inl e)
    with Reply show ?thesis
      by (simp add: getCompatibleVersion_value)
  next
    case (Inr v)
    with Reply have v: "fst (getCompatibleVersion reg packageName V w) = v"
      by (simp add: getCompatibleVersion_value)
    from getCompatibleVersion_try_Inr [OF Inr] Reply show ?thesis
      unfolding v compatible_True_iff by blast
  qed
qed

theorem getCompatibleVersion_latest_or_compatible_witness:
  "fst (getCompatibleVersion
          (scripted
             [Reply (JObj [(''versions'',
                JObj [(''16.4.0'', JObj [(''peerDependencies'', JObj [(''@angular/core'', JStr ''^16.0.0'')])]),
                      (''17.3.1'', JObj [(''peerDependencies'', JObj [(''@angular/core'', JStr ''17.0.0'')])])])])])
          ''primeng'' ''17.0.0'' \<lparr>requests = [], console = []\<rparr>) = ''17.3.1'' \<and>
   js_get (JObj [(''@angular/core'', JStr ''17.0.0'')]) ''@angular/core'' = Inr (JStr ''17.0.0'')"
proof -
  define reg where "reg = scripted
             [Reply (JObj [(''versions'',
                JObj [(''16.4.0'', JObj [(''peerDependencies'', JObj [(''@angular/core'', JStr ''^16.0.0'')])]),
                      (''17.3.1'', JObj [(''peerDependencies'', JObj [(''@angular/core'', JStr ''17.0.0'')])])])])]"
  define w0 where "w0 = \<lparr>requests = [], console = []\<rparr>"
  have ev: "fst (getCompatibleVersion reg ''primeng'' ''17.0.0'' w0) = ''17.3.1''"
    unfolding reg_def w0_def by code_simp
  have g: "js_get (JObj [(''@angular/core'', JStr ''17.0.0'')]) ''@angular/core'' = Inr (JStr ''17.0.0'')"
    by (simp add: js_get_def)
  from getCompatibleVersion_latest_or_compatible [of reg "''primeng''" "''17.0.0''" w0] ev g
  show ?thesis
    unfolding reg_def w0_def by simp
qed

lemma getCompatibleVersion_try_none:
  assumes "\<forall>versions. js_get data ''versions'' = Inr versions \<longrightarrow>
             (\<forall>v \<in> set (map fst (own_entries versions)). compatible versions V v \<noteq> Inr True)"
    and "getCompatibleVersion_try data V = Inr v"
  shows "v = ''latest''"
  using getCompatibleVersion_try_Inr [OF assms(2)] assms(1) by blast

text \<open>
  C3. For every target framework version, a package whose listing cannot be fetched, or
  whose listing has no version whose peer dependency on \<^verbatim>\<open>@angular/core\<close> is the target
  version, is resolved to the literal \<^verbatim>\<open>latest\<close>.
\<close>

theorem getCompatibleVersion_falls_back:
  "(reg (length (requests w)) (registry_url @ packageName) = Failed \<longrightarrow>
      fst (getCompatibleVersion reg packageName V w) = ''latest'') \<and>
   (reg (length (requests w)) (registry_url @ packageName) = Reply data \<and>
    (\<forall>versions. js_get data ''versions'' = Inr versions \<longrightarrow>
       (\<forall>v \<in> set (map fst (own_entries versions)). compatible versions V v \<noteq> Inr True)) \<longrightarrow>
      fst (getCompatibleVersion reg packageName V w) = ''latest'')"
proof (intro conjI impI)
  assume "reg (length (requests w)) (registry_url @ packageName) = Failed"
  then show "fst (getCompatibleVersion reg packageName V w) = ''latest''"
    by (rule getCompatibleVersion_failed)
next
  assume a: "reg (length (requests w)) (registry_url @ packageName) = Reply data \<and>
    (\<forall>versions. js_get data ''versions'' = Inr versions \<longrightarrow>
       (\<forall>v \<in> set (map fst (own_entries versions)). compatible versions V v \<noteq> Inr True))"
  show "fst (getCompatibleVersion reg packageName V w) = ''latest''"
  proof (cases "getCompatibleVersion_try data V")
    case (Inl e)
    with a show ?thesis
      by (simp add: getCompatibleVersion_value)
  next
    case (Inr v)
    with a have "v = ''latest''"
      using getCompatibleVersion_try_none [of data V v] by blast
    with a Inr show ?thesis
      by (simp add: getCompatibleVersion_value)
  qed
qed

theorem getCompatibleVersion_falls_back_witness:
  "fst (getCompatibleVersion (scripted []) ''primeflex'' ''17.0.0''
          \<lparr>requests = [], console = []\<rparr>) = ''latest'' \<and>
   fst (getCompatibleVersion
          (scripted
             [Reply (JObj [(''versions'',
                JObj [(''16.4.0'',
                       JObj [(''peerDependencies'', JObj [(''@angular/core'', JStr ''^16.0.0'')])]),
                      (''17.3.1'',
                       JObj [(''peerDependencies'', JObj [(''@angular/core'', JStr ''^17.0.0'')])])])])])
          ''primeng'' ''17.0.0'' \<lparr>requests = [], console = []\<rparr>) = ''latest''"
proof -
  define versions where "versions =
     JObj [(''16.4.0'', JObj [(''peerDependencies'', JObj [(''@angular/core'', JStr ''^16.0.0'')])]),
           (''17.3.1'', JObj [(''peerDependencies'', JObj [(''@angular/core'', JStr ''^17.0.0'')])])]"
  define data where "data = JObj [(''versions'', versions)]"
  define w0 where "w0 = \<lparr>requests = [], console = []\<rparr>"
  have f: "scripted [] (length (requests w0)) (registry_url @ ''primeflex'') = Failed"
    by (simp add: scripted_def)
  have r: "scripted [Reply data] (length (requests w0)) (registry_url @ ''primeng'') = Reply data"
    by (simp add: scripted_def w0_def)
  have g: "js_get data ''versions'' = Inr versions"
    by (simp add: data_def js_get_def)
  have keys: "map fst (own_entries versions) = [''16.4.0'', ''17.3.1'']"
    by (simp add: versions_def)
  have c1: "compatible versions ''17.0.0'' ''16.4.0'' = Inr False"
    and c2: "compatible versions ''17.0.0'' ''17.3.1'' = Inr False"
    by (simp_all add: versions_def compatible_def js_get_def js_or_def)
  have none: "\<forall>vs. js_get data ''versions'' = Inr vs \<longrightarrow>
       (\<forall>v \<in> set (map fst (own_entries vs)). compatible vs ''17.0.0'' v \<noteq> Inr True)"
    using g keys c1 c2 by auto
  from getCompatibleVersion_falls_back
         [where reg = "scripted []" and w = w0 and packageName = "''primeflex''"
            and V = "''17.0.0''"] f
  have one: "fst (getCompatibleVersion (scripted []) ''primeflex'' ''17.0.0'' w0) = ''latest''"
    by blast
  from getCompatibleVersion_falls_back
         [where reg = "scripted [Reply data]" and w = w0 and packageName = "''primeng''"
            and V = "''17.0.0''" and data = data] r none
  have two: "fst (getCompatibleVersion (scripted [Reply data]) ''primeng'' ''17.0.0'' w0) = ''latest''"
    by blast
  from one two show ?thesis
    unfolding data_def versions_def w0_def by simp
qed

section \<open>Determinism in the registry\<close>






section \<open>The smallest qualifying version\<close>

lemma index_key_last: "last (index_key n) = char_of (48 + n mod 10)"
  by (subst index_key.simps) simp

lemma index_key_last_digit: "(of_char (last (index_key n)) :: nat) < 58"
proof -
  have "n mod 10 < 10" by simp
  then have "(48 + n mod 10) mod 256 = 48 + n mod 10" by simp
  then show ?thesis
    unfolding index_key_last of_char_of by simp
qed

lemma map_of_index_keys:
  assumes "58 \<le> (of_char (last k) :: nat)"
  shows "map_of (zip (map index_key [0..<m]) xs) k = None"
proof -
  have "k \<notin> set (map index_key [0..<m])"
  proof
    assume "k \<in> set (map index_key [0..<m])"
    then obtain i where "k = index_key i" by auto
    with index_key_last_digit [of i] assms show False by simp
  qed
  then have "k \<notin> fst ` set (zip (map index_key [0..<m]) xs)"
    by (auto dest: set_zip_leftD)
  then show ?thesis
    by (simp add: map_of_eq_None_iff)
qed

lemma js_get_no_own_property:
  assumes "58 \<le> (of_char (last k) :: nat)"
    and "v \<noteq> JUndefined" and "v \<noteq> JNull" and "\<forall>kvs. v \<noteq> JObj kvs"
  shows "js_get v k = Inr JUndefined"
  using assms(2-) by (cases v) (auto simp: js_get_def map_of_index_keys [OF assms(1)])

lemma truthy_js_or: "truthy (js_or pd (JObj []))"
  by (simp add: js_or_def)

lemma js_get_defined: "v \<noteq> JUndefined \<Longrightarrow> v \<noteq> JNull \<Longrightarrow> \<exists>x. js_get v k = Inr x"
  by (simp add: js_get_def split: option.splits)

lemma compatible_total:
  assumes "js_get versions k = Inr x" and "x \<noteq> JNull" and "x \<noteq> JUndefined"
  shows "\<exists>b. compatible versions V k = Inr b"
proof -
  from assms(2,3) obtain pd where pd: "js_get x ''peerDependencies'' = Inr pd"
    using js_get_defined [of x] by blast
  have "truthy (js_or pd (JObj []))" by (rule truthy_js_or)
  then have "js_or pd (JObj []) \<noteq> JUndefined \<and> js_or pd (JObj []) \<noteq> JNull"
    by (rule truthy_defined)
  then obtain core where "js_get (js_or pd (JObj [])) ''@angular/core'' = Inr core"
    using js_get_defined [of "js_or pd (JObj [])"] by blast
  with assms(1) pd show ?thesis
    by (simp add: compatible_def)
qed

lemma compatible_null:
  assumes "js_get versions k = Inr x" and "x = JNull \<or> x = JUndefined"
  shows "compatible versions V k = Inl TypeError"
  using assms by (auto simp: compatible_def js_get_def)

lemma getCompatibleVersion_try_smallest:
  assumes obj: "typeof data = ''object''" "data \<noteq> JNull"
    and versions: "js_get data ''versions'' = Inr versions"
    and entries: "\<forall>k \<in> set (map fst (own_entries versions)).
                    js_get versions k \<noteq> Inr JNull \<and> js_get versions k \<noteq> Inr JUndefined"
    and some: "q \<in> set (map fst (own_entries versions))" "compatible versions V q = Inr True"
    and nonempty: "compatible versions V [] \<noteq> Inr True"
  shows "\<exists>c. getCompatibleVersion_try data V = Inr c \<and>
           c \<in> set (map fst (own_entries versions)) \<and> compatible versions V c = Inr True \<and>
           (\<forall>v \<in> set (map fst (own_entries versions)).
              compatible versions V v = Inr True \<longrightarrow> c \<le> v)"
proof -
  define ks where "ks = map fst (own_entries versions)"
  from some(1) have defined: "versions \<noteq> JUndefined" "versions \<noteq> JNull"
    by auto
  then have keys: "Object_keys versions = Inr ks"
    by (simp add: Object_keys_def ks_def)
  have "\<exists>b. compatible versions V k = Inr b" if "k \<in> set ks" for k
  proof -
    from defined obtain x where x: "js_get versions k = Inr x"
      using js_get_defined [of versions k] by blast
    with entries that have "x \<noteq> JNull" "x \<noteq> JUndefined"
      unfolding ks_def by auto
    with x show ?thesis by (rule compatible_total)
  qed
  then have "\<forall>k \<in> set ks. \<exists>b. compatible versions V k = Inr b"
    by blast
  then have filt: "filter_err (compatible versions V) ks
                     = Inr (filter (\<lambda>k. compatible versions V k = Inr True) ks)"
    by (rule filter_err_total)
  define qs where "qs = filter (\<lambda>k. compatible versions V k = Inr True) ks"
  from some have "q \<in> set qs"
    by (simp add: qs_def ks_def)
  then have "sort qs \<noteq> []"
    by (metis empty_iff list.set(1) set_sort)
  then obtain c rest where sorted: "sort qs = c # rest"
    by (cases "sort qs") auto
  then have c: "c \<in> set qs \<and> (\<forall>u \<in> set qs. c \<le> u)"
    by (rule sort_head)
  with nonempty have "c \<noteq> []"
    by (auto simp: qs_def)
  with obj versions keys filt sorted have "getCompatibleVersion_try data V = Inr c"
    by (simp add: getCompatibleVersion_try_def qs_def [symmetric])
  with c show ?thesis
    unfolding qs_def ks_def by auto
qed

lemma versions_of_document:
  assumes "js_get data ''versions'' = Inr versions" and "versions \<noteq> JUndefined"
  shows "typeof data = ''object'' \<and> data \<noteq> JNull"
proof (cases data)
  case (JStr s)
  have "js_get data ''versions'' = Inr JUndefined"
    by (rule js_get_no_own_property) (simp_all add: JStr)
  with assms show ?thesis by simp
qed (use assms in \<open>simp_all add: js_get_def\<close>)

text \<open>
  C2, as stated, fails: a listing in which the empty string is a version key that
  qualifies, next to \<^verbatim>\<open>10.0.0\<close>, is resolved to \<^verbatim>\<open>latest\<close>, which is not the smallest
  qualifying key (the empty string is): \<^verbatim>\<open>||\<close> takes the empty string for no result.
\<close>

theorem getCompatibleVersion_empty_version_counterexample:
  "fst (getCompatibleVersion
          (scripted
             [Reply (JObj [(''versions'',
                JObj [('''', JObj [(''peerDependencies'', JObj [(''@angular/core'', JStr ''17.0.0'')])]),
                      (''10.0.0'', JObj [(''peerDependencies'', JObj [(''@angular/core'', JStr ''17.0.0'')])])])])])
          ''primeng'' ''17.0.0'' \<lparr>requests = [], console = []\<rparr>) = ''latest'' \<and>
   compatible
     (JObj [('''', JObj [(''peerDependencies'', JObj [(''@angular/core'', JStr ''17.0.0'')])]),
            (''10.0.0'', JObj [(''peerDependencies'', JObj [(''@angular/core'', JStr ''17.0.0'')])])])
     ''17.0.0'' '''' = Inr True \<and>
   compatible
     (JObj [('''', JObj [(''peerDependencies'', JObj [(''@angular/core'', JStr ''17.0.0'')])]),
            (''10.0.0'', JObj [(''peerDependencies'', JObj [(''@angular/core'', JStr ''17.0.0'')])])])
     ''17.0.0'' ''10.0.0'' = Inr True \<and>
   '''' < ''10.0.0'' \<and> ''latest'' \<noteq> ''''"
  by (simp add: getCompatibleVersion_value scripted_def getCompatibleVersion_try_def
        js_get_def Object_keys_def compatible_def js_or_def)

text \<open>
  C2, amended. For every target framework version and every package whose listing has at
  least one version (so also more than one) whose peer dependency on \<^verbatim>\<open>@angular/core\<close> is
  the target version, \<^const>\<open>getCompatibleVersion\<close> returns the smallest qualifying version
  key in the order of plain strings (\<^verbatim>\<open>10.0.0\<close> before \<^verbatim>\<open>2.0.0\<close>), provided that no key of
  \<^verbatim>\<open>versions\<close> reads as \<^verbatim>\<open>null\<close> or \<^verbatim>\<open>undefined\<close> (the filter would throw) and that the
  empty string is not a qualifying key.
\<close>

theorem getCompatibleVersion_smallest:
  assumes reply: "reg (length (requests w)) (registry_url @ packageName) = Reply data"
    and versions: "js_get data ''versions'' = Inr versions"
    and entries: "\<forall>k \<in> set (map fst (own_entries versions)).
                    js_get versions k \<noteq> Inr JNull \<and> js_get versions k \<noteq> Inr JUndefined"
    and some: "q \<in> set (map fst (own_entries versions))" "compatible versions V q = Inr True"
    and nonempty: "compatible versions V [] \<noteq> Inr True"
  shows "fst (getCompatibleVersion reg packageName V w) \<in> set (map fst (own_entries versions)) \<and>
         compatible versions V (fst (getCompatibleVersion reg packageName V w)) = Inr True \<and>
         (\<forall>v \<in> set (map fst (own_entries versions)).
            compatible versions V v = Inr True \<longrightarrow>
              fst (getCompatibleVersion reg packageName V w) \<le> v)"
proof -
  from some(1) have "versions \<noteq> JUndefined" by auto
  with versions have "typeof data = ''object'' \<and> data \<noteq> JNull"
    by (rule versions_of_document)
  with versions entries some nonempty obtain c where
    c: "getCompatibleVersion_try data V = Inr c" and
    smallest: "c \<in> set (map fst (own_entries versions)) \<and> compatible versions V c = Inr True \<and>
           (\<forall>v \<in> set (map fst (own_entries versions)).
              compatible versions V v = Inr True \<longrightarrow> c \<le> v)"
    using getCompatibleVersion_try_smallest [of data versions q V] by blast
  from reply c have "fst (getCompatibleVersion reg packageName V w) = c"
    by (simp add: getCompatibleVersion_value)
  with smallest show ?thesis by simp
qed

theorem getCompatibleVersion_smallest_witness:
  "fst (getCompatibleVersion
          (scripted
             [Reply (JObj [(''versions'',
                JObj [(''2.0.0'', JObj [(''peerDependencies'', JObj [(''@angular/core'', JStr ''17.0.0'')])]),
                      (''10.0.0'', JObj [(''peerDependencies'', JObj [(''@angular/core'', JStr ''17.0.0'')])])])])])
          ''primeng'' ''17.0.0'' \<lparr>requests = [], console = []\<rparr>) = ''10.0.0'' \<and>
   ''10.0.0'' < ''2.0.0''"
proof -
  define versions where "versions =
     JObj [(''2.0.0'', JObj [(''peerDependencies'', JObj [(''@angular/core'', JStr ''17.0.0'')])]),
           (''10.0.0'', JObj [(''peerDependencies'', JObj [(''@angular/core'', JStr ''17.0.0'')])])]"
  define data where "data = JObj [(''versions'', versions)]"
  define w0 where "w0 = \<lparr>requests = [], console = []\<rparr>"
  define r where "r = fst (getCompatibleVersion (scripted [Reply data]) ''primeng'' ''17.0.0'' w0)"
  have reply: "scripted [Reply data] (length (requests w0)) (registry_url @ ''primeng'') = Reply data"
    by (simp add: scripted_def w0_def)
  have g: "js_get data ''versions'' = Inr versions"
    by (simp add: data_def js_get_def)
  have keys: "map fst (own_entries versions) = [''2.0.0'', ''10.0.0'']"
    by (simp add: versions_def)
  have entries: "\<forall>k \<in> set (map fst (own_entries versions)).
                    js_get versions k \<noteq> Inr JNull \<and> js_get versions k \<noteq> Inr JUndefined"
    unfolding keys by (simp add: versions_def js_get_def)
  have c1: "compatible versions ''17.0.0'' ''2.0.0'' = Inr True"
    and c2: "compatible versions ''17.0.0'' ''10.0.0'' = Inr True"
    and c0: "compatible versions ''17.0.0'' [] \<noteq> Inr True"
    by (simp_all add: versions_def compatible_def js_get_def js_or_def)
  have q: "''2.0.0'' \<in> set (map fst (own_entries versions))"
    unfolding keys by simp
  from getCompatibleVersion_smallest
         [where reg = "scripted [Reply data]" and w = w0 and packageName = "''primeng''",
          OF reply g entries q c1 c0]
  have mem: "r \<in> set (map fst (own_entries versions))"
    and least: "\<forall>v \<in> set (map fst (own_entries versions)).
            compatible versions ''17.0.0'' v = Inr True \<longrightarrow> r \<le> v"
    unfolding r_def by blast+
  from least c2 have "r \<le> ''10.0.0''"
    unfolding keys by simp
  moreover from mem have "r = ''2.0.0'' \<or> r = ''10.0.0''"
    unfolding keys by simp
  ultimately have "r = ''10.0.0''"
    by auto
  then show ?thesis
    unfolding r_def data_def versions_def w0_def by simp
qed

section \<open>Totality of getCompatibleVersion\<close>

lemma compatible_string_entry: "compatible (JStr s) V k \<noteq> Inr True"
proof
  assume "compatible (JStr s) V k = Inr True"
  then obtain entry pd where
    entry: "js_get (JStr s) k = Inr entry" and
    pd: "js_get entry ''peerDependencies'' = Inr pd" and
    core: "js_get (js_or pd (JObj [])) ''@angular/core'' = Inr (JStr V)"
    unfolding compatible_True_iff by blast
  from entry have shape: "entry = JUndefined \<or> (\<exists>c. entry = JStr [c])"
    by (auto simp: js_get_def split: option.splits dest!: map_of_SomeD set_zip_rightD)
  have "pd = JUndefined"
  proof (cases "entry = JUndefined")
    case True
    with pd show ?thesis by (simp add: js_get_def)
  next
    case False
    with shape obtain c where c: "entry = JStr [c]" by blast
    have "js_get entry ''peerDependencies'' = Inr JUndefined"
      by (rule js_get_no_own_property) (simp_all add: c)
    with pd show ?thesis by simp
  qed
  with core show False
    by (simp add: js_or_def js_get_def)
qed

lemma getCompatibleVersion_try_primitive_versions:
  assumes "js_get data ''versions'' = Inr versions"
    and "versions = JUndefined \<or> versions = JNull \<or> (\<exists>b. versions = JBool b) \<or>
         (\<exists>r. versions = JNum r) \<or> (\<exists>s. versions = JStr s)"
    and "getCompatibleVersion_try data V = Inr v"
  shows "v = ''latest''"
proof (rule ccontr)
  assume "v \<noteq> ''latest''"
  with getCompatibleVersion_try_Inr [OF assms(3)] obtain versions' where
    "js_get data ''versions'' = Inr versions'" and
    key: "v \<in> set (map fst (own_entries versions'))" and
    comp: "compatible versions' V v = Inr True"
    by blast
  with assms(1) have same: "versions' = versions" by simp
  from assms(2) key comp show False
    unfolding same by (auto simp: compatible_string_entry)
qed

lemma getCompatibleVersion_try_empty_qualifies:
  assumes "js_get data ''versions'' = Inr versions"
    and "[] \<in> set (map fst (own_entries versions))"
    and "compatible versions V [] = Inr True"
    and "getCompatibleVersion_try data V = Inr v"
  shows "v = ''latest''"
proof (rule ccontr)
  assume "v \<noteq> ''latest''"
  with getCompatibleVersion_try_Inr [OF assms(4)] obtain versions' where
    "js_get data ''versions'' = Inr versions'" and
    "v \<noteq> []" and
    least: "\<forall>u \<in> set (map fst (own_entries versions')).
               compatible versions' V u = Inr True \<longrightarrow> v \<le> u"
    by blast
  with assms(1) have same: "versions' = versions" by simp
  from least assms(2,3) have "v \<le> []"
    unfolding same by blast
  with \<open>v \<noteq> []\<close> show False by simp
qed

lemma getCompatibleVersion_try_null_entry:
  assumes "js_get data ''versions'' = Inr versions"
    and "k \<in> set (map fst (own_entries versions))"
    and "js_get versions k = Inr JNull \<or> js_get versions k = Inr JUndefined"
    and "getCompatibleVersion_try data V = Inr v"
  shows "v = ''latest''"
proof (cases "typeof data = ''object'' \<and> data \<noteq> JNull")
  case False
  with assms(4) show ?thesis
    by (auto simp: getCompatibleVersion_try_def)
next
  case True
  from assms(3) have "compatible versions V k = Inl TypeError"
    by (auto intro: compatible_null)
  with assms(2) obtain e where
    "filter_err (compatible versions V) (map fst (own_entries versions)) = Inl e"
    using filter_err_Inl [of k "map fst (own_entries versions)" "compatible versions V" TypeError]
    by blast
  with True assms(1,4) show ?thesis
    by (simp add: getCompatibleVersion_try_def Object_keys_def split: if_splits)
qed

text \<open>
  C10, as stated, fails in one of its degenerate cases: a \<^verbatim>\<open>versions\<close> that is an array,
  not an object of version keys, has its indices as keys, and when an element qualifies
  the result is the index \<^verbatim>\<open>0\<close>, not \<^verbatim>\<open>latest\<close>.
\<close>

theorem getCompatibleVersion_array_versions_counterexample:
  "getCompatibleVersion
     (scripted
        [Reply (JObj [(''versions'',
           JArr [JObj [(''peerDependencies'', JObj [(''@angular/core'', JStr ''17.0.0'')])]])])])
     ''primeng'' ''17.0.0'' \<lparr>requests = [], console = []\<rparr>
   = (''0'', \<lparr>requests = [''https://registry.npmjs.org/primeng''], console = []\<rparr>) \<and>
   ''0'' \<noteq> ''latest''"
  by code_simp

text \<open>
  C10, amended. \<^const>\<open>getCompatibleVersion\<close> is total over every reply: it returns a
  string and no error leaves it; the string is \<^verbatim>\<open>latest\<close> or a non-empty own key of
  \<^verbatim>\<open>versions\<close> that qualifies. It is \<^verbatim>\<open>latest\<close> when the request fails, when the data is not
  a non-null object, when \<^verbatim>\<open>versions\<close> is missing, \<^verbatim>\<open>null\<close>, a boolean, a number or a
  string, when a key of \<^verbatim>\<open>versions\<close> reads as \<^verbatim>\<open>null\<close> or \<^verbatim>\<open>undefined\<close>, and when the empty
  string is a qualifying key. (An array as \<^verbatim>\<open>versions\<close> is not among these cases.)
\<close>

theorem getCompatibleVersion_total:
  "\<exists>ver w'. getCompatibleVersion reg packageName V w = (ver, w') \<and>
     (ver = ''latest'' \<or>
      (\<exists>data versions.
         reg (length (requests w)) (registry_url @ packageName) = Reply data \<and>
         js_get data ''versions'' = Inr versions \<and>
         ver \<in> set (map fst (own_entries versions)) \<and>
         compatible versions V ver = Inr True \<and> ver \<noteq> [])) \<and>
     (reg (length (requests w)) (registry_url @ packageName) = Failed \<longrightarrow> ver = ''latest'') \<and>
     (\<forall>data. reg (length (requests w)) (registry_url @ packageName) = Reply data \<longrightarrow>
        (\<not> (typeof data = ''object'' \<and> data \<noteq> JNull) \<longrightarrow> ver = ''latest'') \<and>
        (\<forall>versions. js_get data ''versions'' = Inr versions \<longrightarrow>
           (versions = JUndefined \<or> versions = JNull \<or> (\<exists>b. versions = JBool b) \<or>
            (\<exists>r. versions = JNum r) \<or> (\<exists>s. versions = JStr s) \<longrightarrow> ver = ''latest'') \<and>
           ((\<exists>k \<in> set (map fst (own_entries versions)).
               js_get versions k = Inr JNull \<or> js_get versions k = Inr JUndefined) \<longrightarrow>
              ver = ''latest'') \<and>
           ([] \<in> set (map fst (own_entries versions)) \<and> compatible versions V [] = Inr True \<longrightarrow>
              ver = ''latest'')))"
proof -
  define ver where "ver = fst (getCompatibleVersion reg packageName V w)"
  have run: "getCompatibleVersion reg packageName V w
               = (ver, snd (getCompatibleVersion reg packageName V w))"
    by (simp add: ver_def)
  have shape: "ver = ''latest'' \<or>
      (\<exists>data versions.
         reg (length (requests w)) (registry_url @ packageName) = Reply data \<and>
         js_get data ''versions'' = Inr versions \<and>
         ver \<in> set (map fst (own_entries versions)) \<and>
         compatible versions V ver = Inr True \<and> ver \<noteq> [])"
  proof (cases "reg (length (requests w)) (registry_url @ packageName)")
    case Failed
    then show ?thesis by (simp add: ver_def getCompatibleVersion_value)
  next
    case (Reply data)
    show ?thesis
    proof (cases "getCompatibleVersion_try data V")
      case (Inl e)
      with Reply show ?thesis by (simp add: ver_def getCompatibleVersion_value)
    next
      case (Inr v)
      with Reply have "ver = v" by (simp add: ver_def getCompatibleVersion_value)
      with getCompatibleVersion_try_Inr [OF Inr] Reply show ?thesis by blast
    qed
  qed
  have failed: "ver = ''latest''"
    if "reg (length (requests w)) (registry_url @ packageName) = Failed"
    using that by (simp add: ver_def getCompatibleVersion_value)
  have result: "ver = (case getCompatibleVersion_try data V of Inl e \<Rightarrow> ''latest'' | Inr v \<Rightarrow> v)"
    if "reg (length (requests w)) (registry_url @ packageName) = Reply data" for data
    using that by (simp add: ver_def getCompatibleVersion_value)
  have not_object: "ver = ''latest''"
    if "reg (length (requests w)) (registry_url @ packageName) = Reply data"
      and "\<not> (typeof data = ''object'' \<and> data \<noteq> JNull)" for data
    using that(2) unfolding result [OF that(1)]
    by (auto simp: getCompatibleVersion_try_def)
  have primitive: "ver = ''latest''"
    if "reg (length (requests w)) (registry_url @ packageName) = Reply data"
      and "js_get data ''versions'' = Inr versions"
      and "versions = JUndefined \<or> versions = JNull \<or> (\<exists>b. versions = JBool b) \<or>
            (\<exists>r. versions = JNum r) \<or> (\<exists>s. versions = JStr s)" for data versions
  proof (cases "getCompatibleVersion_try data V")
    case (Inl e)
    then show ?thesis unfolding result [OF that(1)] by simp
  next
    case (Inr v)
    with that(2,3) have "v = ''latest''"
      by (rule getCompatibleVersion_try_primitive_versions)
    with Inr show ?thesis unfolding result [OF that(1)] by simp
  qed
  have null_entry: "ver = ''latest''"
    if "reg (length (requests w)) (registry_url @ packageName) = Reply data"
      and "js_get data ''versions'' = Inr versions"
      and "\<exists>k \<in> set (map fst (own_entries versions)).
               js_get versions k = Inr JNull \<or> js_get versions k = Inr JUndefined"
    for data versions
  proof (cases "getCompatibleVersion_try data V")
    case (Inl e)
    then show ?thesis unfolding result [OF that(1)] by simp
  next
    case (Inr v)
    from that(3) obtain k where
      k: "k \<in> set (map fst (own_entries versions))"
         "js_get versions k = Inr JNull \<or> js_get versions k = Inr JUndefined"
      by blast
    from that(2) k Inr have "v = ''latest''"
      by (rule getCompatibleVersion_try_null_entry)
    with Inr show ?thesis unfolding result [OF that(1)] by simp
  qed
  have empty: "ver = ''latest''"
    if "reg (length (requests w)) (registry_url @ packageName) = Reply data"
      and "js_get data ''versions'' = Inr versions"
      and "[] \<in> set (map fst (own_entries versions)) \<and> compatible versions V [] = Inr True"
    for data versions
  proof (cases "getCompatibleVersion_try data V")
    case (Inl e)
    then show ?thesis unfolding result [OF that(1)] by simp
  next
    case (Inr v)
    from that(3) have e: "[] \<in> set (map fst (own_entries versions))"
      "compatible versions V [] = Inr True"
      by blast+
    from that(2) e Inr have "v = ''latest''"
      by (rule getCompatibleVersion_try_empty_qualifies)
    with Inr show ?thesis unfolding result [OF that(1)] by simp
  qed
  have outer:
    "\<forall>data. reg (length (requests w)) (registry_url @ packageName) = Reply data \<longrightarrow>
        (\<not> (typeof data = ''object'' \<and> data \<noteq> JNull) \<longrightarrow> ver = ''latest'') \<and>
        (\<forall>versions. js_get data ''versions'' = Inr versions \<longrightarrow>
           (versions = JUndefined \<or> versions = JNull \<or> (\<exists>b. versions = JBool b) \<or>
            (\<exists>r. versions = JNum r) \<or> (\<exists>s. versions = JStr s) \<longrightarrow> ver = ''latest'') \<and>
           ((\<exists>k \<in> set (map fst (own_entries versions)).
               js_get versions k = Inr JNull \<or> js_get versions k = Inr JUndefined) \<longrightarrow>
              ver = ''latest'') \<and>
           ([] \<in> set (map fst (own_entries versions)) \<and> compatible versions V [] = Inr True \<longrightarrow>
              ver = ''latest''))"
  proof (intro allI impI conjI)
    fix data
    assume r: "reg (length (requests w)) (registry_url @ packageName) = Reply data"
      and "\<not> (typeof data = ''object'' \<and> data \<noteq> JNull)"
    then show "ver = ''latest''" by (rule not_object)
  next
    fix data versions
    assume r: "reg (length (requests w)) (registry_url @ packageName) = Reply data"
      and v: "js_get data ''versions'' = Inr versions"
      and "versions = JUndefined \<or> versions = JNull \<or> (\<exists>b. versions = JBool b) \<or>
        (\<exists>r. versions = JNum r) \<or> (\<exists>s. versions = JStr s)"
    then show "ver = ''latest''" by (rule primitive)
  next
    fix data versions
    assume r: "reg (length (requests w)) (registry_url @ packageName) = Reply data"
      and v: "js_get data ''versions'' = Inr versions"
      and "\<exists>k \<in> set (map fst (own_entries versions)).
          js_get versions k = Inr JNull \<or> js_get versions k = Inr JUndefined"
    then show "ver = ''latest''" by (rule null_entry)
  next
    fix data versions
    assume r: "reg (length (requests w)) (registry_url @ packageName) = Reply data"
      and v: "js_get data ''versions'' = Inr versions"
      and "[] \<in> set (map fst (own_entries versions)) \<and> compatible versions V [] = Inr True"
    then show "ver = ''latest''" by (rule empty)
  qed
  have first: "reg (length (requests w)) (registry_url @ packageName) = Failed \<longrightarrow> ver = ''latest''"
    using failed by (rule impI)
  show ?thesis
    by (rule exI [of _ ver], rule exI [of _ "snd (getCompatibleVersion reg packageName V w)"])
       (intro conjI run shape first outer)
qed

theorem getCompatibleVersion_total_witness:
  "fst (getCompatibleVersion (scripted [Reply (JStr ''Not Found'')]) ''primeng'' ''17.0.0''
          \<lparr>requests = [], console = []\<rparr>) = ''latest'' \<and>
   fst (getCompatibleVersion
          (scripted [Reply (JObj [(''versions'', JObj [(''17.3.1'', JNull)])])])
          ''primeng'' ''17.0.0'' \<lparr>requests = [], console = []\<rparr>) = ''latest''"
proof -
  define w0 where "w0 = \<lparr>requests = [], console = []\<rparr>"
  define d1 where "d1 = JStr ''Not Found''"
  define versions where "versions = JObj [(''17.3.1'', JNull)]"
  define d2 where "d2 = JObj [(''versions'', versions)]"
  have r1: "scripted [Reply d1] (length (requests w0)) (registry_url @ ''primeng'') = Reply d1"
    and r2: "scripted [Reply d2] (length (requests w0)) (registry_url @ ''primeng'') = Reply d2"
    by (simp_all add: scripted_def w0_def)
  have t1: "\<not> (typeof d1 = ''object'' \<and> d1 \<noteq> JNull)"
    by (simp add: d1_def)
  have g2: "js_get d2 ''versions'' = Inr versions"
    by (simp add: d2_def js_get_def)
  have n2: "\<exists>k \<in> set (map fst (own_entries versions)).
              js_get versions k = Inr JNull \<or> js_get versions k = Inr JUndefined"
    by (simp add: versions_def js_get_def)
  from getCompatibleVersion_total
         [where reg = "scripted [Reply d1]" and packageName = "''primeng''" and V = "''17.0.0''"
            and w = w0]
  obtain ver1 w1 where
    run1: "getCompatibleVersion (scripted [Reply d1]) ''primeng'' ''17.0.0'' w0 = (ver1, w1)" and
    deg1: "\<forall>data. scripted [Reply d1] (length (requests w0)) (registry_url @ ''primeng'') = Reply data \<longrightarrow>
        (\<not> (typeof data = ''object'' \<and> data \<noteq> JNull) \<longrightarrow> ver1 = ''latest'') \<and>
        (\<forall>versions. js_get data ''versions'' = Inr versions \<longrightarrow>
           (versions = JUndefined \<or> versions = JNull \<or> (\<exists>b. versions = JBool b) \<or>
            (\<exists>r. versions = JNum r) \<or> (\<exists>s. versions = JStr s) \<longrightarrow> ver1 = ''latest'') \<and>
           ((\<exists>k \<in> set (map fst (own_entries versions)).
               js_get versions k = Inr JNull \<or> js_get versions k = Inr JUndefined) \<longrightarrow>
              ver1 = ''latest'') \<and>
           ([] \<in> set (map fst (own_entries versions)) \<and>
            compatible versions ''17.0.0'' [] = Inr True \<longrightarrow>
              ver1 = ''latest''))"
    by (elim exE conjE) (rule that; assumption)
  from deg1 [rule_format, OF r1, THEN conjunct1, rule_format, OF t1] run1
  have one:
    "fst (getCompatibleVersion (scripted [Reply d1]) ''primeng'' ''17.0.0'' w0) = ''latest''"
    by simp
  from getCompatibleVersion_total
         [where reg = "scripted [Reply d2]" and packageName = "''primeng''" and V = "''17.0.0''"
            and w = w0]
  obtain ver2 w2 where
    run2: "getCompatibleVersion (scripted [Reply d2]) ''primeng'' ''17.0.0'' w0 = (ver2, w2)" and
    deg2: "\<forall>data. scripted [Reply d2] (length (requests w0)) (registry_url @ ''primeng'') = Reply data \<longrightarrow>
        (\<not> (typeof data = ''object'' \<and> data \<noteq> JNull) \<longrightarrow> ver2 = ''latest'') \<and>
        (\<forall>versions. js_get data ''versions'' = Inr versions \<longrightarrow>
           (versions = JUndefined \<or> versions = JNull \<or> (\<exists>b. versions = JBool b) \<or>
            (\<exists>r. versions = JNum r) \<or> (\<exists>s. versions = JStr s) \<longrightarrow> ver2 = ''latest'') \<and>
           ((\<exists>k \<in> set (map fst (own_entries versions)).
               js_get versions k = Inr JNull \<or> js_get versions k = Inr JUndefined) \<longrightarrow>
              ver2 = ''latest'') \<and>
           ([] \<in> set (map fst (own_entries versions)) \<and>
            compatible versions ''17.0.0'' [] = Inr True \<longrightarrow>
              ver2 = ''latest''))"
    by (elim exE conjE) (rule that; assumption)
  from deg2 [rule_format, OF r2, THEN conjunct2, rule_format, OF g2, THEN conjunct2,
             THEN conjunct1, rule_format, OF n2] run2
  have two:
    "fst (getCompatibleVersion (scripted [Reply d2]) ''primeng'' ''17.0.0'' w0) = ''latest''"
    by simp
  from one two show ?thesis
    unfolding d1_def d2_def versions_def w0_def by simp
qed

end
